theory Spec2Isabelle
  imports Complex_Main
begin

section \<open>Doubles\<close>

text \<open>
  The program computes on C++ \<^verbatim>\<open>double\<close>s held in Armadillo vectors and matrices.
  A double is modelled as an exact real number or one of the three special values of
  IEEE 754: the finite operations are exact (rounding, overflow and underflow are not
  modelled, nor is the sign of zero), and the special values follow IEEE 754, so that
  a division by a zero norm gives an infinity or a NaN as it does in the program.
  Every division of the source has a norm, \<^verbatim>\<open>sqrt(n)\<close>, \<^verbatim>\<open>n\<close> or a weight as its
  divisor; a zero divisor is read as \<^verbatim>\<open>+0.0\<close>.

  A property that needs an exact product or quotient of the program, such as
  \<open>(a / b) * b = a\<close>, or the exact values of \<^verbatim>\<open>log10\<close> and \<^verbatim>\<open>exp10\<close>, is not a property
  of the program on doubles; the theorems below do not state any.
\<close>

datatype dbl = Fin real | PInf | MInf | NaN

fun is_finite :: "dbl \<Rightarrow> bool" where
  "is_finite (Fin a) = True"
| "is_finite PInf = False"
| "is_finite MInf = False"
| "is_finite NaN = False"

fun dneg :: "dbl \<Rightarrow> dbl" where
  "dneg (Fin a) = Fin (- a)"
| "dneg PInf = MInf"
| "dneg MInf = PInf"
| "dneg NaN = NaN"

fun dadd :: "dbl \<Rightarrow> dbl \<Rightarrow> dbl" where
  "dadd (Fin a) (Fin b) = Fin (a + b)"
| "dadd NaN y = NaN"
| "dadd x NaN = NaN"
| "dadd PInf MInf = NaN"
| "dadd MInf PInf = NaN"
| "dadd PInf y = PInf"
| "dadd x PInf = PInf"
| "dadd MInf y = MInf"
| "dadd x MInf = MInf"

definition dsub :: "dbl \<Rightarrow> dbl \<Rightarrow> dbl" where
  "dsub x y = dadd x (dneg y)"

fun dmul :: "dbl \<Rightarrow> dbl \<Rightarrow> dbl" where
  "dmul (Fin a) (Fin b) = Fin (a * b)"
| "dmul NaN y = NaN"
| "dmul x NaN = NaN"
| "dmul (Fin a) PInf = (if 0 < a then PInf else if a < 0 then MInf else NaN)"
| "dmul (Fin a) MInf = (if 0 < a then MInf else if a < 0 then PInf else NaN)"
| "dmul PInf (Fin b) = (if 0 < b then PInf else if b < 0 then MInf else NaN)"
| "dmul MInf (Fin b) = (if 0 < b then MInf else if b < 0 then PInf else NaN)"
| "dmul PInf PInf = PInf"
| "dmul PInf MInf = MInf"
| "dmul MInf PInf = MInf"
| "dmul MInf MInf = PInf"

fun ddiv :: "dbl \<Rightarrow> dbl \<Rightarrow> dbl" where
  "ddiv (Fin a) (Fin b) =
     (if b \<noteq> 0 then Fin (a / b)
      else if 0 < a then PInf else if a < 0 then MInf else NaN)"
| "ddiv NaN y = NaN"
| "ddiv x NaN = NaN"
| "ddiv (Fin a) PInf = Fin 0"
| "ddiv (Fin a) MInf = Fin 0"
| "ddiv PInf (Fin b) = (if 0 \<le> b then PInf else MInf)"
| "ddiv MInf (Fin b) = (if 0 \<le> b then MInf else PInf)"
| "ddiv PInf PInf = NaN"
| "ddiv PInf MInf = NaN"
| "ddiv MInf PInf = NaN"
| "ddiv MInf MInf = NaN"

fun dsqrt :: "dbl \<Rightarrow> dbl" where
  "dsqrt (Fin a) = (if 0 \<le> a then Fin (sqrt a) else NaN)"
| "dsqrt PInf = PInf"
| "dsqrt MInf = NaN"
| "dsqrt NaN = NaN"

fun dabs :: "dbl \<Rightarrow> dbl" where
  "dabs (Fin a) = Fin \<bar>a\<bar>"
| "dabs PInf = PInf"
| "dabs MInf = PInf"
| "dabs NaN = NaN"

text \<open>The comparison \<^verbatim>\<open>x > y\<close> of two doubles: false as soon as one of them is a NaN.\<close>

fun dgt :: "dbl \<Rightarrow> dbl \<Rightarrow> bool" where
  "dgt (Fin a) (Fin b) = (b < a)"
| "dgt NaN y = False"
| "dgt x NaN = False"
| "dgt PInf PInf = False"
| "dgt PInf y = True"
| "dgt x PInf = False"
| "dgt MInf y = False"
| "dgt x MInf = True"

definition dlt :: "dbl \<Rightarrow> dbl \<Rightarrow> bool" where
  "dlt x y = dgt y x"


section \<open>Armadillo vectors\<close>

text \<open>
  An \<^verbatim>\<open>arma::vec\<close> is a list of doubles. Armadillo checks sizes and bounds and raises
  \<^verbatim>\<open>std::logic_error\<close>, which ends the call; a function that can raise returns an
  option, \<open>None\<close> for the exception.
\<close>

type_synonym vec = "dbl list"

text \<open>
  \<^verbatim>\<open>arma::max\<close> of a vector starts from the most negative double and keeps every entry
  that compares greater, so a NaN entry is never taken.
\<close>

definition direct_max :: "vec \<Rightarrow> dbl" where
  "direct_max xs = foldl (\<lambda>m x. if dgt x m then x else m) MInf xs"

text \<open>\<^verbatim>\<open>cpp_max\<close> fills a vector of two entries and takes its \<^verbatim>\<open>arma::max\<close>.\<close>

definition cpp_max :: "dbl \<Rightarrow> dbl \<Rightarrow> dbl" where
  "cpp_max x y = direct_max [x, y]"

text \<open>\<^verbatim>\<open>norm(v)\<close> is the Euclidean norm.\<close>

definition norm_arma :: "vec \<Rightarrow> dbl" where
  "norm_arma xs = dsqrt (foldl (\<lambda>acc x. dadd acc (dmul x x)) (Fin 0) xs)"

text \<open>The product of a scalar and a vector.\<close>

definition scale :: "dbl \<Rightarrow> vec \<Rightarrow> vec" where
  "scale c xs = map (dmul c) xs"

section \<open>The proximal operator\<close>

text \<open>
  The scaling factor of one step of the proximal loop,
  \<^verbatim>\<open>cpp_max(1 - weights(j) / norm(beta.subvec(j, p - 1)), 0)\<close>.
\<close>

definition shrink_factor :: "vec \<Rightarrow> vec \<Rightarrow> nat \<Rightarrow> dbl" where
  "shrink_factor weights beta j =
     cpp_max (dsub (Fin 1) (ddiv (weights ! j) (norm_arma (drop j beta)))) (Fin 0)"

text \<open>
  One step: \<^verbatim>\<open>beta.subvec(j, p - 1)\<close> is replaced by its product with the scaling factor.
  \<^verbatim>\<open>weights(j)\<close> raises when \<open>j\<close> is not an index of \<open>weights\<close>.
\<close>

definition shrink_step :: "vec \<Rightarrow> vec \<Rightarrow> nat \<Rightarrow> vec option" where
  "shrink_step weights beta j =
     (if j < length weights
      then Some (take j beta @ scale (shrink_factor weights beta j) (drop j beta))
      else None)"

text \<open>
  \<^verbatim>\<open>for(int j = p - 1; j >= 0; --j)\<close> in \<^verbatim>\<open>GetProxOne\<close>: \<open>prox_loop (Suc j)\<close> runs the steps
  \<open>j\<close>, \<open>j - 1\<close>, ..., \<open>0\<close>.
\<close>

fun prox_loop :: "nat \<Rightarrow> vec \<Rightarrow> vec \<Rightarrow> vec option" where
  "prox_loop 0 weights beta = Some beta"
| "prox_loop (Suc j) weights beta =
     (case shrink_step weights beta j of
        None \<Rightarrow> None
      | Some beta' \<Rightarrow> prox_loop j weights beta')"

definition GetProxOne :: "vec \<Rightarrow> vec \<Rightarrow> vec option" where
  "GetProxOne y weights = prox_loop (length y) weights y"

text \<open>
  A part of the same loop: \<open>prox_steps weights beta j m\<close> runs the \<open>m\<close> steps \<open>j + m - 1\<close>,
  ..., \<open>j\<close>. For a vector \<open>y\<close> of \<open>p\<close> entries, \<open>prox_steps weights y (j + 1) (p - (j + 1))\<close>
  is the vector \<^verbatim>\<open>beta\<close> on which step \<open>j\<close> of \<^verbatim>\<open>GetProxOne\<close> works.
\<close>

fun prox_steps :: "vec \<Rightarrow> vec \<Rightarrow> nat \<Rightarrow> nat \<Rightarrow> vec option" where
  "prox_steps weights beta j 0 = Some beta"
| "prox_steps weights beta j (Suc m) =
     (case shrink_step weights beta (j + m) of
        None \<Rightarrow> None
      | Some beta' \<Rightarrow> prox_steps weights beta' j m)"

section \<open>The proximal operator along a path of weights\<close>

text \<open>
  An \<^verbatim>\<open>arma::mat\<close> is the list of its columns, and so is the \<^verbatim>\<open>arma::sp_mat\<close> that
  \<^verbatim>\<open>GetProx\<close> returns (a sparse matrix stores the same values as a dense one).
\<close>

type_synonym mat = "vec list"

text \<open>
  The inner loop of \<^verbatim>\<open>GetProx\<close> over \<open>j\<close>, on \<^verbatim>\<open>temp_weights\<close> and \<^verbatim>\<open>temp_beta\<close>;
  \<open>GetProx_inner (Suc j)\<close> runs the steps \<open>j\<close>, ..., \<open>0\<close>.
\<close>

fun GetProx_inner :: "nat \<Rightarrow> vec \<Rightarrow> vec \<Rightarrow> vec option" where
  "GetProx_inner 0 temp_weights temp_beta = Some temp_beta"
| "GetProx_inner (Suc j) temp_weights temp_beta =
     (if j < length temp_weights
      then GetProx_inner j temp_weights
             (take j temp_beta @
              scale (cpp_max (dsub (Fin 1)
                        (ddiv (temp_weights ! j) (norm_arma (drop j temp_beta)))) (Fin 0))
                (drop j temp_beta))
      else None)"

text \<open>
  The outer loop \<^verbatim>\<open>for(int i = 0; i < nlam; ++i)\<close>: \<open>GetProx_outer y weights i\<close> is the
  matrix \<^verbatim>\<open>beta\<close> after the iterations \<open>0\<close>, ..., \<open>i - 1\<close>. It starts as the zero matrix
  with \<open>p\<close> rows and \<open>nlam\<close> columns; iteration \<open>i\<close> copies \<open>y\<close> into \<^verbatim>\<open>temp_beta\<close>, runs
  the inner loop on column \<open>i\<close> of the weights and stores the result as column \<open>i\<close>.
\<close>

primrec GetProx_outer :: "vec \<Rightarrow> mat \<Rightarrow> nat \<Rightarrow> mat option" where
  "GetProx_outer y weights 0 =
     Some (replicate (length weights) (replicate (length y) (Fin 0)))"
| "GetProx_outer y weights (Suc i) =
     (case GetProx_outer y weights i of
        None \<Rightarrow> None
      | Some beta \<Rightarrow>
          (case GetProx_inner (length y) (weights ! i) y of
             None \<Rightarrow> None
           | Some temp_beta \<Rightarrow> Some (beta[i := temp_beta])))"

definition GetProx :: "vec \<Rightarrow> mat \<Rightarrow> mat option" where
  "GetProx y weights = GetProx_outer y weights (length weights)"

section \<open>The penalty path of \<^verbatim>\<open>solveHierBasis\<close>\<close>

text \<open>
  \<^verbatim>\<open>solveHierBasis\<close> factorises the design matrix (\<^verbatim>\<open>arma::qr_econ\<close>), forms
  \<^verbatim>\<open>v_temp = x_mat.t() * (y / n)\<close>, chooses the largest penalty, builds the path of
  penalties, scales the weights, calls \<^verbatim>\<open>GetProx\<close> and solves a triangular system. The
  model covers the path \<^verbatim>\<open>lambdas\<close> that the function returns, from \<^verbatim>\<open>max_lambda\<close>,
  \<^verbatim>\<open>lam_min_ratio\<close> and \<^verbatim>\<open>nlam\<close>.
\<close>





section \<open>The additive fit\<close>

text \<open>
  An \<^verbatim>\<open>arma::cube\<close> is the list of its slices, each slice a matrix. The cube \<open>X\<close> of
  \<^verbatim>\<open>FitAdditive\<close> is built from the R array \<open>x\<close> and its dimensions.
\<close>

type_synonym cube = "mat list"

text \<open>Sums, differences and quotients of vectors, entry by entry.\<close>

definition vadd :: "vec \<Rightarrow> vec \<Rightarrow> vec" where
  "vadd xs ys = map2 dadd xs ys"

definition vsub :: "vec \<Rightarrow> vec \<Rightarrow> vec" where
  "vsub xs ys = map2 dsub xs ys"

definition vdiv :: "vec \<Rightarrow> dbl \<Rightarrow> vec" where
  "vdiv xs c = map (\<lambda>x. ddiv x c) xs"

text \<open>\<^verbatim>\<open>sum(M, 1)\<close>: the sums of the rows of a matrix with \<open>r\<close> rows.\<close>

definition row_sums :: "nat \<Rightarrow> mat \<Rightarrow> vec" where
  "row_sums r M = foldl vadd (replicate r (Fin 0)) M"

text \<open>\<^verbatim>\<open>M * v\<close> for a matrix with \<open>r\<close> rows: the sum of the columns, each times its entry of \<open>v\<close>.\<close>

definition mat_vec :: "nat \<Rightarrow> mat \<Rightarrow> vec \<Rightarrow> vec" where
  "mat_vec r M v = foldl vadd (replicate r (Fin 0)) (map2 (\<lambda>col x. scale x col) M v)"

text \<open>\<^verbatim>\<open>trans(M) * v\<close>: the products of the columns of \<open>M\<close> with \<open>v\<close>.\<close>

definition dot :: "vec \<Rightarrow> vec \<Rightarrow> dbl" where
  "dot xs ys = foldl dadd (Fin 0) (map2 dmul xs ys)"

definition trans_mat_vec :: "mat \<Rightarrow> vec \<Rightarrow> vec" where
  "trans_mat_vec M v = map (\<lambda>col. dot col v) M"

text \<open>\<^verbatim>\<open>vectorise(M)\<close> stacks the columns.\<close>

definition vectorise :: "mat \<Rightarrow> vec" where
  "vectorise M = concat M"

text \<open>
  The body of the loop over the blocks, for block \<open>j\<close>, on the matrices \<^verbatim>\<open>beta\<close> and
  \<^verbatim>\<open>x_beta\<close>:
  \<^verbatim>\<open>temp_y = y - sum(x_beta, 1) + (X.slice(j) * beta.col(j));\<close>
  \<^verbatim>\<open>temp_v = trans(X.slice(j)) * (temp_y / n);\<close>
  \<^verbatim>\<open>temp_beta_j = GetProxOne(temp_v, temp_weights);\<close>
  \<^verbatim>\<open>beta.col(j) = temp_beta_j;  x_beta.col(j) = X.slice(j) * temp_beta_j;\<close>
  The condition collects Armadillo's checks: \<open>j\<close> is a slice of \<open>X\<close> and a column of
  \<^verbatim>\<open>beta\<close> and of \<^verbatim>\<open>x_beta\<close>; the columns of \<^verbatim>\<open>x_beta\<close> and of the slice are as long as
  \<open>y\<close>; the slice has as many columns as \<^verbatim>\<open>beta\<close> has rows.
\<close>

definition block_update ::
  "vec \<Rightarrow> cube \<Rightarrow> int \<Rightarrow> vec \<Rightarrow> nat \<Rightarrow> mat \<times> mat \<Rightarrow> (mat \<times> mat) option" where
  "block_update y X n temp_weights j bx =
     (case bx of (beta, x_beta) \<Rightarrow>
        if j < length X \<and> j < length beta \<and> j < length x_beta
           \<and> list_all (\<lambda>c. length c = length y) x_beta
           \<and> list_all (\<lambda>c. length c = length y) (X ! j)
           \<and> length (X ! j) = length (beta ! j)
        then
          let temp_y = vadd (vsub y (row_sums (length y) x_beta))
                            (mat_vec (length y) (X ! j) (beta ! j));
              temp_v = trans_mat_vec (X ! j) (vdiv temp_y (Fin (of_int n)))
          in (case GetProxOne temp_v temp_weights of
                None \<Rightarrow> None
              | Some temp_beta_j \<Rightarrow>
                  Some (beta[j := temp_beta_j],
                        x_beta[j := mat_vec (length y) (X ! j) temp_beta_j]))
        else None)"

text \<open>
  \<^verbatim>\<open>for(int j = 0; j < p; j++)\<close>: \<open>sweep y X n temp_weights j bx\<close> is the pair of \<^verbatim>\<open>beta\<close>
  and \<^verbatim>\<open>x_beta\<close> after the blocks \<open>0\<close>, ..., \<open>j - 1\<close>; a full sweep is \<open>sweep \<dots> p\<close>.
\<close>

primrec sweep :: "vec \<Rightarrow> cube \<Rightarrow> int \<Rightarrow> vec \<Rightarrow> nat \<Rightarrow> mat \<times> mat \<Rightarrow> (mat \<times> mat) option" where
  "sweep y X n temp_weights 0 bx = Some bx"
| "sweep y X n temp_weights (Suc j) bx =
     (case sweep y X n temp_weights j bx of
        None \<Rightarrow> None
      | Some bx' \<Rightarrow> block_update y X n temp_weights j bx')"

text \<open>
  The state of \<^verbatim>\<open>FitAdditive\<close>: the matrices \<^verbatim>\<open>beta\<close> and \<^verbatim>\<open>x_beta\<close> (the caller's
  arguments, updated in place), the result \<^verbatim>\<open>beta_ans\<close>, and the number of warnings
  raised through R's \<^verbatim>\<open>warning\<close> so far.
\<close>

record fit_state =
  beta :: mat
  x_beta :: mat
  beta_ans :: mat
  warnings :: nat

text \<open>
  \<^verbatim>\<open>fabs(change) < tol\<close> with
  \<^verbatim>\<open>change = norm(vectorise(beta)) - norm(vectorise(old_beta))\<close>, for the entries
  \<open>old\<close> of \<^verbatim>\<open>old_beta\<close> and the new matrix \<^verbatim>\<open>beta\<close>.
\<close>

definition change_below_tol :: "dbl \<Rightarrow> vec \<Rightarrow> mat \<Rightarrow> bool" where
  "change_below_tol tol old new_beta =
     dlt (dabs (dsub (norm_arma (vectorise new_beta)) (norm_arma old))) tol"

text \<open>
  \<^verbatim>\<open>while(counter < max_iter && !converged)\<close> for the penalty \<open>i\<close>. The function is entered
  with \<^verbatim>\<open>converged = false\<close> and returns the final value of \<^verbatim>\<open>converged\<close> with the
  state.
  \<^item> \<^verbatim>\<open>old_beta\<close> copies \<open>J * p\<close> doubles from the memory of \<^verbatim>\<open>beta\<close>; with fewer entries
    in \<^verbatim>\<open>beta\<close> the copy reads out of bounds, which the model treats as a failure.
  \<^item> \<^verbatim>\<open>beta_ans.col(i) = vectorise(beta)\<close> raises unless \<^verbatim>\<open>beta\<close> has \<open>p * J\<close> entries,
    the number of rows of \<^verbatim>\<open>beta_ans\<close>.
  \<^item> \<^verbatim>\<open>max_iter\<close> is a finite double, \<^verbatim>\<open>counter\<close> an \<^verbatim>\<open>int\<close> that is compared with it
    after conversion; the model does not bound \<^verbatim>\<open>counter\<close>.
\<close>

function bcd_while ::
  "vec \<Rightarrow> cube \<Rightarrow> int \<Rightarrow> dbl \<Rightarrow> real \<Rightarrow> nat \<Rightarrow> nat \<Rightarrow> vec \<Rightarrow> nat \<Rightarrow> nat \<Rightarrow> fit_state
     \<Rightarrow> (bool \<times> fit_state) option" where
  "bcd_while y X n tol max_iter p J temp_weights i counter st =
     (if real counter < max_iter then
        (if J * p \<le> length (vectorise (beta st)) then
           (case sweep y X n temp_weights p (beta st, x_beta st) of
              None \<Rightarrow> None
            | Some (beta', x_beta') \<Rightarrow>
                if change_below_tol tol (take (J * p) (vectorise (beta st))) beta' then
                  (if length (vectorise beta') = p * J
                   then Some (True, st\<lparr>beta := beta', x_beta := x_beta',
                                         beta_ans := (beta_ans st)[i := vectorise beta']\<rparr>)
                   else None)
                else
                  bcd_while y X n tol max_iter p J temp_weights i (counter + 1)
                    (st\<lparr>beta := beta', x_beta := x_beta',
                        warnings := (if real (counter + 1) = max_iter
                                     then Suc (warnings st) else warnings st)\<rparr>))
         else None)
      else Some (False, st))"
  by pat_completeness auto
termination
proof (relation "measure (\<lambda>(y, X, n, tol, max_iter, p, J, temp_weights, i, counter, st).
                  nat \<lceil>max_iter\<rceil> - counter)", goal_cases)
  case 1
  show ?case by simp
next
  case (2 y X n tol max_iter p J temp_weights i counter st bx beta' x_beta')
  from \<open>real counter < max_iter\<close> have "int counter < \<lceil>max_iter\<rceil>"
    by (simp add: less_ceiling_iff)
  then have "counter < nat \<lceil>max_iter\<rceil>" by simp
  then show ?case by simp
qed

text \<open>
  \<^verbatim>\<open>for(int i = 0; i < nlam; i++)\<close>: \<open>FitAdditive_outer \<dots> i\<close> is the state after the
  penalties \<open>0\<close>, ..., \<open>i - 1\<close>. \<^verbatim>\<open>beta_ans\<close> starts as the zero matrix with \<open>p * J\<close> rows and
  \<open>nlam\<close> columns. \<^verbatim>\<open>beta\<close> and \<^verbatim>\<open>x_beta\<close> are not reset between two penalties.
  \<^verbatim>\<open>weights.col(i)\<close> raises when \<open>i\<close> is not a column of the weights.
\<close>

primrec FitAdditive_outer ::
  "vec \<Rightarrow> mat \<Rightarrow> mat \<Rightarrow> cube \<Rightarrow> mat \<Rightarrow> dbl \<Rightarrow> nat \<Rightarrow> nat \<Rightarrow> int \<Rightarrow> nat \<Rightarrow> real \<Rightarrow> nat
     \<Rightarrow> fit_state option" where
  "FitAdditive_outer y weights x_beta0 X beta0 tol p J n nlam max_iter 0 =
     Some \<lparr>beta = beta0, x_beta = x_beta0,
           beta_ans = replicate nlam (replicate (p * J) (Fin 0)), warnings = 0\<rparr>"
| "FitAdditive_outer y weights x_beta0 X beta0 tol p J n nlam max_iter (Suc i) =
     (case FitAdditive_outer y weights x_beta0 X beta0 tol p J n nlam max_iter i of
        None \<Rightarrow> None
      | Some st \<Rightarrow>
          if i < length weights then
            (case bcd_while y X n tol max_iter p J (vdiv (weights ! i) (Fin (of_int n))) i 0 st of
               None \<Rightarrow> None
             | Some (converged, st') \<Rightarrow> Some st')
          else None)"

text \<open>
  \<^verbatim>\<open>FitAdditive\<close> returns \<^verbatim>\<open>beta_ans\<close>; the model adds the number of warnings. The
  arguments \<open>p\<close>, \<open>J\<close> and \<open>nlam\<close> are counts and are taken as natural numbers; \<open>n\<close> is
  used as a divisor only, after conversion to a double.
\<close>

definition FitAdditive ::
  "vec \<Rightarrow> mat \<Rightarrow> mat \<Rightarrow> cube \<Rightarrow> mat \<Rightarrow> dbl \<Rightarrow> nat \<Rightarrow> nat \<Rightarrow> int \<Rightarrow> nat \<Rightarrow> real
     \<Rightarrow> (mat \<times> nat) option" where
  "FitAdditive y weights x_beta0 X beta0 tol p J n nlam max_iter =
     (case FitAdditive_outer y weights x_beta0 X beta0 tol p J n nlam max_iter nlam of
        None \<Rightarrow> None
      | Some st \<Rightarrow> Some (beta_ans st, warnings st))"

text \<open>
  The convergence test of the additive fit is described with two more functions:
  \<open>sweeps \<dots> k bx\<close> is the pair of \<^verbatim>\<open>beta\<close> and \<^verbatim>\<open>x_beta\<close> after \<open>k\<close> full sweeps from
  \<open>bx\<close>, and \<open>sweep_passes \<dots> k bx\<close> says that sweep number \<open>k\<close> (the first one is
  number \<open>0\<close>) runs and that the norm of the vectorised \<^verbatim>\<open>beta\<close> after it differs from
  the norm of the vectorised \<^verbatim>\<open>beta\<close> before it by less than \<open>tol\<close>.
\<close>

primrec sweeps ::
  "vec \<Rightarrow> cube \<Rightarrow> int \<Rightarrow> vec \<Rightarrow> nat \<Rightarrow> nat \<Rightarrow> mat \<times> mat \<Rightarrow> (mat \<times> mat) option" where
  "sweeps y X n temp_weights p 0 bx = Some bx"
| "sweeps y X n temp_weights p (Suc k) bx =
     (case sweep y X n temp_weights p bx of
        None \<Rightarrow> None
      | Some bx' \<Rightarrow> sweeps y X n temp_weights p k bx')"

definition sweep_passes ::
  "vec \<Rightarrow> cube \<Rightarrow> int \<Rightarrow> vec \<Rightarrow> nat \<Rightarrow> dbl \<Rightarrow> nat \<Rightarrow> mat \<times> mat \<Rightarrow> bool" where
  "sweep_passes y X n temp_weights p tol k bx =
     (case sweeps y X n temp_weights p k bx of
        None \<Rightarrow> False
      | Some (b, xb) \<Rightarrow>
          (case sweep y X n temp_weights p (b, xb) of
             None \<Rightarrow> False
           | Some (b', xb') \<Rightarrow> change_below_tol tol (vectorise b) b'))"

section \<open>The proximal operator on finite inputs\<close>

text \<open>
  On finite doubles the loop computes with real numbers only. The following functions
  describe that computation; they are used in the proofs, and the lemmas below show
  that the program agrees with them.
\<close>

definition sumsq :: "real list \<Rightarrow> real" where
  "sumsq xs = (\<Sum>x\<leftarrow>xs. x * x)"

definition rfactor :: "real \<Rightarrow> real list \<Rightarrow> real" where
  "rfactor w bs = (if sumsq bs = 0 then 0 else max (1 - w / sqrt (sumsq bs)) 0)"

definition rstep :: "real list \<Rightarrow> real list \<Rightarrow> nat \<Rightarrow> real list" where
  "rstep ws bs j = take j bs @ map ((*) (rfactor (ws ! j) (drop j bs))) (drop j bs)"

fun rprox :: "nat \<Rightarrow> real list \<Rightarrow> real list \<Rightarrow> real list" where
  "rprox 0 ws bs = bs"
| "rprox (Suc j) ws bs = rprox j ws (rstep ws bs j)"

section \<open>Arithmetic of finite doubles\<close>

text \<open>A vector of finite doubles is the image of a list of reals.\<close>

lemma finite_vector_iff: "list_all is_finite xs \<longleftrightarrow> (\<exists>rs. xs = map Fin rs)"
proof (induction xs)
  case Nil
  show ?case by simp
next
  case (Cons x xs)
  show ?case
  proof
    assume "list_all is_finite (x # xs)"
    with Cons obtain rs where rs: "xs = map Fin rs" and "is_finite x" by auto
    then obtain r where "x = Fin r" by (cases x) simp_all
    with rs have "x # xs = map Fin (r # rs)" by simp
    then show "\<exists>rs. x # xs = map Fin rs" ..
  next
    assume "\<exists>rs. x # xs = map Fin rs"
    then obtain rs where "x # xs = map Fin rs" ..
    then obtain r rs' where "x = Fin r" "xs = map Fin rs'" by (cases rs) auto
    with Cons show "list_all is_finite (x # xs)" by auto
  qed
qed

lemma sumsq_nonneg: "0 \<le> sumsq xs"
  unfolding sumsq_def by (induction xs) simp_all

lemma sumsq_zero_iff: "sumsq xs = 0 \<longleftrightarrow> (\<forall>x\<in>set xs. x = 0)"
proof (induction xs)
  case Nil
  show ?case by (simp add: sumsq_def)
next
  case (Cons x xs)
  have "0 \<le> x * x" by simp
  moreover have "0 \<le> sumsq xs" by (rule sumsq_nonneg)
  ultimately have "x * x + sumsq xs = 0 \<longleftrightarrow> x * x = 0 \<and> sumsq xs = 0"
    by (rule add_nonneg_eq_0_iff)
  with Cons show ?case by (simp add: sumsq_def)
qed

lemma foldl_sumsq:
  "foldl (\<lambda>acc x. dadd acc (dmul x x)) (Fin a) (map Fin xs) = Fin (a + sumsq xs)"
  by (induction xs arbitrary: a) (simp_all add: sumsq_def algebra_simps)

lemma norm_arma_Fin: "norm_arma (map Fin xs) = Fin (sqrt (sumsq xs))"
  by (simp add: norm_arma_def foldl_sumsq sumsq_nonneg)

lemma cpp_max_Fin: "cpp_max (Fin a) (Fin 0) = Fin (max a 0)"
  by (simp add: cpp_max_def direct_max_def max_def)

lemma cpp_max_MInf: "cpp_max MInf (Fin 0) = Fin 0"
  by (simp add: cpp_max_def direct_max_def)

lemma cpp_max_NaN: "cpp_max NaN (Fin 0) = Fin 0"
  by (simp add: cpp_max_def direct_max_def)

lemma cpp_max_PInf: "cpp_max PInf (Fin 0) = PInf"
  by (simp add: cpp_max_def direct_max_def)

lemma shrink_factor_Fin:
  assumes "j < length ws" and "0 \<le> ws ! j"
  shows "shrink_factor (map Fin ws) (map Fin bs) j = Fin (rfactor (ws ! j) (drop j bs))"
proof (cases "sumsq (drop j bs) = 0")
  case True
  show ?thesis
  proof (cases "ws ! j = 0")
    case True
    with \<open>sumsq (drop j bs) = 0\<close> assms show ?thesis
      by (simp add: shrink_factor_def drop_map norm_arma_Fin dsub_def cpp_max_NaN rfactor_def)
  next
    case False
    with assms have "0 < ws ! j" by simp
    with \<open>sumsq (drop j bs) = 0\<close> assms show ?thesis
      by (simp add: shrink_factor_def drop_map norm_arma_Fin dsub_def cpp_max_MInf rfactor_def)
  qed
next
  case False
  with assms show ?thesis
    by (simp add: shrink_factor_def drop_map norm_arma_Fin dsub_def cpp_max_Fin rfactor_def)
qed

lemma rfactor_bounds: "0 \<le> w \<Longrightarrow> 0 \<le> rfactor w bs \<and> rfactor w bs \<le> 1"
proof -
  assume "0 \<le> w"
  have "0 \<le> sqrt (sumsq bs)" by (simp add: sumsq_nonneg)
  with \<open>0 \<le> w\<close> have "0 \<le> w / sqrt (sumsq bs)" by simp
  then show ?thesis by (simp add: rfactor_def)
qed

lemma shrink_step_Fin:
  assumes "j < length ws" and "0 \<le> ws ! j"
  shows "shrink_step (map Fin ws) (map Fin bs) j = Some (map Fin (rstep ws bs j))"
  using assms
  by (simp add: shrink_step_def shrink_factor_Fin rstep_def scale_def take_map drop_map comp_def)

lemma prox_loop_Fin:
  "j \<le> length ws \<Longrightarrow> \<forall>i<j. 0 \<le> ws ! i \<Longrightarrow>
   prox_loop j (map Fin ws) (map Fin bs) = Some (map Fin (rprox j ws bs))"
proof (induction j arbitrary: bs)
  case 0
  show ?case by simp
next
  case (Suc j)
  from Suc.prems have "j < length ws" "0 \<le> ws ! j" by simp_all
  then have "shrink_step (map Fin ws) (map Fin bs) j = Some (map Fin (rstep ws bs j))"
    by (rule shrink_step_Fin)
  moreover have "prox_loop j (map Fin ws) (map Fin (rstep ws bs j))
      = Some (map Fin (rprox j ws (rstep ws bs j)))"
    using Suc.prems by (intro Suc.IH) simp_all
  ultimately show ?case by simp
qed

lemma length_rstep: "length (rstep ws bs j) = length bs"
  by (simp add: rstep_def)

lemma length_rprox: "length (rprox j ws bs) = length bs"
  by (induction j arbitrary: bs) (simp_all add: length_rstep)

lemma rstep_nth:
  "k < length bs \<Longrightarrow>
   rstep ws bs j ! k = (if k < j then bs ! k else rfactor (ws ! j) (drop j bs) * bs ! k)"
  by (simp add: rstep_def nth_append)

lemma rprox_factors:
  assumes "\<forall>i<j. 0 \<le> ws ! i"
  shows "\<exists>F. (\<forall>k<length bs. rprox j ws bs ! k = F k * bs ! k)
            \<and> (\<forall>k. 0 \<le> F k \<and> F k \<le> 1)
            \<and> (\<forall>k k'. k \<le> k' \<and> F k = 0 \<longrightarrow> F k' = 0)"
  using assms
proof (induction j arbitrary: bs)
  case 0
  show ?case by (rule exI[of _ "\<lambda>_. 1"]) simp
next
  case (Suc j)
  define f where "f = rfactor (ws ! j) (drop j bs)"
  define bs1 where "bs1 = rstep ws bs j"
  from Suc.prems have "0 \<le> ws ! j" by simp
  then have f: "0 \<le> f" "f \<le> 1" using rfactor_bounds[of "ws ! j" "drop j bs"] by (simp_all add: f_def)
  from Suc.prems have "\<forall>i<j. 0 \<le> ws ! i" by simp
  from Suc.IH[OF this, of bs1] obtain F1 where
    F1: "\<forall>k<length bs1. rprox j ws bs1 ! k = F1 k * bs1 ! k"
        "\<forall>k. 0 \<le> F1 k \<and> F1 k \<le> 1"
        "\<forall>k k'. k \<le> k' \<and> F1 k = 0 \<longrightarrow> F1 k' = 0"
    by (elim exE conjE)
  define F where "F = (\<lambda>k. if k < j then F1 k else F1 k * f)"
  have len: "length bs1 = length bs" by (simp add: bs1_def length_rstep)
  have step: "\<forall>k<length bs. bs1 ! k = (if k < j then bs ! k else f * bs ! k)"
    by (simp add: bs1_def rstep_nth f_def)
  have "rprox (Suc j) ws bs = rprox j ws bs1" by (simp add: bs1_def)
  then have a: "\<forall>k<length bs. rprox (Suc j) ws bs ! k = F k * bs ! k"
    using F1(1) len step by (simp add: F_def)
  have b: "\<forall>k. 0 \<le> F k \<and> F k \<le> 1"
    using F1(2) f by (simp add: F_def mult_le_one)
  have c: "\<forall>k k'. k \<le> k' \<and> F k = 0 \<longrightarrow> F k' = 0"
  proof (intro allI impI, elim conjE)
    fix k k'
    assume le: "k \<le> k'" and z: "F k = 0"
    show "F k' = 0"
    proof (cases "F1 k = 0")
      case True
      with F1(3) le have "F1 k' = 0" by blast
      then show ?thesis by (simp add: F_def)
    next
      case False
      with z have "\<not> k < j" "f = 0" by (auto simp: F_def split: if_splits)
      with le show ?thesis by (simp add: F_def)
    qed
  qed
  from a b c show ?case by (intro exI[of _ F] conjI)
qed

lemma GetProxOne_Fin:
  assumes "length ys \<le> length ws" and "\<forall>w\<in>set ws. 0 \<le> w"
  shows "GetProxOne (map Fin ys) (map Fin ws) = Some (map Fin (rprox (length ys) ws ys))"
proof -
  from assms have "\<forall>i<length ys. 0 \<le> ws ! i" by simp
  with assms(1) show ?thesis by (simp add: GetProxOne_def prox_loop_Fin)
qed

lemma rfactor_zero_weight: "map ((*) (rfactor 0 xs)) xs = xs"
proof (cases "sumsq xs = 0")
  case True
  then have "\<forall>x\<in>set xs. x = 0" by (simp add: sumsq_zero_iff)
  then have "map ((*) (0::real)) xs = xs" by (induction xs) simp_all
  with True show ?thesis by (simp add: rfactor_def)
next
  case False
  have "map ((*) (1::real)) xs = xs" by (induction xs) simp_all
  with False show ?thesis by (simp add: rfactor_def)
qed

lemma rprox_zero_weights: "j \<le> n \<Longrightarrow> rprox j (replicate n 0) bs = bs"
proof (induction j arbitrary: bs)
  case 0
  show ?case by simp
next
  case (Suc j)
  then have "rstep (replicate n 0) bs j = bs"
    by (simp add: rstep_def rfactor_zero_weight)
  with Suc show ?case by simp
qed

lemma sqrt_16: "sqrt 16 = 4" using real_sqrt_abs[of 4] by simp
lemma sqrt_9: "sqrt 9 = 3" using real_sqrt_abs[of 3] by simp

section \<open>The two proximal routines agree\<close>

lemma GetProx_inner_prox_loop: "GetProx_inner j w b = prox_loop j w b"
  by (induction j arbitrary: b) (simp_all add: shrink_step_def shrink_factor_def)

lemma GetProx_outer_length:
  "GetProx_outer y W k = Some B \<Longrightarrow> length B = length W"
  by (induction k arbitrary: B) (auto split: option.splits)

lemma GetProx_outer_columns:
  "GetProx_outer y W k = Some B \<Longrightarrow> k \<le> length W \<Longrightarrow> i < k \<Longrightarrow>
   GetProxOne y (W ! i) = Some (B ! i)"
proof (induction k arbitrary: B)
  case 0
  then show ?case by simp
next
  case (Suc k)
  from Suc.prems(1) obtain B0 tb where
    B0: "GetProx_outer y W k = Some B0" and
    tb: "GetProx_inner (length y) (W ! k) y = Some tb" and
    B: "B = B0[k := tb]"
    by (auto split: option.splits)
  have len: "length B0 = length W" using B0 by (rule GetProx_outer_length)
  show ?case
  proof (cases "i = k")
    case True
    with tb B len Suc.prems(2) show ?thesis
      by (simp add: GetProxOne_def GetProx_inner_prox_loop)
  next
    case False
    with Suc.prems have "i < k" "k \<le> length W" by simp_all
    with Suc.IH[OF B0] have "GetProxOne y (W ! i) = Some (B0 ! i)" by simp
    with False B show ?thesis by simp
  qed
qed

lemma GetProx_outer_total:
  "k \<le> length W \<Longrightarrow> \<forall>i<k. GetProxOne y (W ! i) \<noteq> None \<Longrightarrow>
   \<exists>B. GetProx_outer y W k = Some B"
proof (induction k)
  case 0
  show ?case by simp
next
  case (Suc k)
  then obtain B0 where "GetProx_outer y W k = Some B0" by auto
  moreover from Suc.prems obtain tb where "GetProxOne y (W ! k) = Some tb" by auto
  ultimately show ?case by (simp add: GetProxOne_def GetProx_inner_prox_loop)
qed

lemma GetProx_Some_iff:
  "GetProx y W = Some B \<longleftrightarrow>
   length B = length W \<and> (\<forall>i<length W. GetProxOne y (W ! i) = Some (B ! i))"
proof
  assume "GetProx y W = Some B"
  then show "length B = length W \<and> (\<forall>i<length W. GetProxOne y (W ! i) = Some (B ! i))"
    unfolding GetProx_def using GetProx_outer_length GetProx_outer_columns by blast
next
  assume r: "length B = length W \<and> (\<forall>i<length W. GetProxOne y (W ! i) = Some (B ! i))"
  then have "\<forall>i<length W. GetProxOne y (W ! i) \<noteq> None" by simp
  with GetProx_outer_total[of "length W" W y] obtain B' where
    B': "GetProx_outer y W (length W) = Some B'" by auto
  have "length B' = length W" using B' by (rule GetProx_outer_length)
  moreover have "B' ! i = B ! i" if "i < length W" for i
    using GetProx_outer_columns[OF B' _ that] r that by simp
  ultimately have "B' = B" using r by (intro nth_equalityI) simp_all
  with B' show "GetProx y W = Some B" by (simp add: GetProx_def)
qed

section \<open>Properties of the proximal operator\<close>

text \<open>
  In the theorems below a vector written \<open>map Fin ys\<close> is a vector of finite doubles:
  the caller guarantees inputs without NaN and without infinities.
\<close>

text \<open>
  Claim C8. The columns of \<^verbatim>\<open>GetProx\<close> are the results of \<^verbatim>\<open>GetProxOne\<close>: \<open>GetProx y W\<close>
  returns the matrix \<open>B\<close> exactly when \<open>B\<close> has one column for each column of \<open>W\<close> and
  column \<open>i\<close> of \<open>B\<close> is \<open>GetProxOne y (W ! i)\<close>. So a column depends on \<open>y\<close> and on its own
  column of weights only, and \<^verbatim>\<open>GetProx\<close> raises exactly when \<^verbatim>\<open>GetProxOne\<close> raises on one
  of the columns.
\<close>

theorem GetProx_column_equivalence:
  "GetProx y W = Some B \<longleftrightarrow>
   length B = length W \<and> (\<forall>i<length W. GetProxOne y (W ! i) = Some (B ! i))"
  by (rule GetProx_Some_iff)

theorem GetProx_column_equivalence_witness:
  "GetProx [Fin 0, Fin 1] [[Fin 0, Fin 0], [Fin 0, Fin 0]]
     = Some [[Fin 0, Fin 1], [Fin 0, Fin 1]]"
proof -
  have one: "GetProxOne [Fin 0, Fin 1] [Fin 0, Fin 0] = Some [Fin 0, Fin 1]"
    by (simp add: GetProxOne_def shrink_step_def shrink_factor_def norm_arma_def cpp_max_def
        direct_max_def scale_def dsub_def numeral_2_eq_2)
  have "\<forall>i<length [[Fin 0, Fin 0], [Fin 0, Fin 0]].
          GetProxOne [Fin 0, Fin 1] ([[Fin 0, Fin 0], [Fin 0, Fin 0]] ! i)
            = Some ([[Fin 0, Fin 1], [Fin 0, Fin 1]] ! i)"
    using one by (simp add: less_Suc_eq numeral_2_eq_2)
  then show ?thesis
    using GetProx_column_equivalence
      [of "[Fin 0, Fin 1]" "[[Fin 0, Fin 0], [Fin 0, Fin 0]]" "[[Fin 0, Fin 1], [Fin 0, Fin 1]]"]
    by simp
qed

text \<open>
  Claim C9. With weights that are all zero, \<^verbatim>\<open>GetProxOne\<close> returns its input \<open>y\<close>
  unchanged, for every finite \<open>y\<close>. (Where a suffix of \<open>y\<close> is zero the factor is
  \<^verbatim>\<open>cpp_max(1 - 0/0, 0)\<close>, which is \<open>0\<close> because \<^verbatim>\<open>arma::max\<close> skips the NaN, and the zero
  suffix stays as it is.)
\<close>

theorem GetProxOne_zero_weight_identity:
  "GetProxOne (map Fin ys) (replicate (length ys) (Fin 0)) = Some (map Fin ys)"
proof -
  have "replicate (length ys) (Fin 0) = map Fin (replicate (length ys) 0)" by simp
  moreover have "GetProxOne (map Fin ys) (map Fin (replicate (length ys) 0))
      = Some (map Fin (rprox (length ys) (replicate (length ys) 0) ys))"
    by (rule GetProxOne_Fin) simp_all
  ultimately show ?thesis by (simp add: rprox_zero_weights)
qed

text \<open>
  Claim C10. For finite \<open>y\<close> and finite weights that are not negative, every entry of
  the result of \<^verbatim>\<open>GetProxOne\<close> is at most the entry of \<open>y\<close> in absolute value, and is zero
  or has the sign of the entry of \<open>y\<close>. The call returns as soon as the weight vector is
  at least as long as \<open>y\<close>.
\<close>

theorem GetProxOne_contraction:
  assumes "length ys \<le> length ws" and "\<forall>w\<in>set ws. 0 \<le> w"
  shows "\<exists>bs. GetProxOne (map Fin ys) (map Fin ws) = Some (map Fin bs)
           \<and> length bs = length ys
           \<and> (\<forall>k<length ys. \<bar>bs ! k\<bar> \<le> \<bar>ys ! k\<bar> \<and> (bs ! k = 0 \<or> sgn (bs ! k) = sgn (ys ! k)))"
proof -
  define bs where "bs = rprox (length ys) ws ys"
  from assms have nn: "\<forall>i<length ys. 0 \<le> ws ! i" by simp
  from rprox_factors[OF nn, of ys] obtain F where
    F: "\<forall>k<length ys. bs ! k = F k * ys ! k" "\<forall>k. 0 \<le> F k \<and> F k \<le> 1"
    unfolding bs_def by (elim exE conjE)
  have "\<bar>bs ! k\<bar> \<le> \<bar>ys ! k\<bar> \<and> (bs ! k = 0 \<or> sgn (bs ! k) = sgn (ys ! k))" if "k < length ys" for k
  proof -
    from F(1) that have eq: "bs ! k = F k * ys ! k" by simp
    from F(2) have f: "0 \<le> F k" "F k \<le> 1" by simp_all
    have "\<bar>bs ! k\<bar> = F k * \<bar>ys ! k\<bar>" using f by (simp add: eq abs_mult)
    also have "\<dots> \<le> 1 * \<bar>ys ! k\<bar>" using f by (intro mult_right_mono) simp_all
    finally have le: "\<bar>bs ! k\<bar> \<le> \<bar>ys ! k\<bar>" by simp
    have "bs ! k = 0 \<or> sgn (bs ! k) = sgn (ys ! k)"
    proof (cases "F k = 0")
      case True
      then show ?thesis by (simp add: eq)
    next
      case False
      with f have "0 < F k" by simp
      then show ?thesis by (simp add: eq sgn_mult)
    qed
    with le show ?thesis by simp
  qed
  moreover have "GetProxOne (map Fin ys) (map Fin ws) = Some (map Fin bs)"
    unfolding bs_def using assms by (rule GetProxOne_Fin)
  moreover have "length bs = length ys" by (simp add: bs_def length_rprox)
  ultimately show ?thesis by blast
qed

theorem GetProxOne_contraction_witness:
  "length [3, - 4 :: real] \<le> length [1, 1 :: real] \<and> (0::real) \<le> 1
   \<and> (\<exists>bs. GetProxOne (map Fin [3, - 4]) (map Fin [1, 1]) = Some (map Fin bs)
           \<and> length bs = length [3, - 4 :: real]
           \<and> (\<forall>k<length [3, - 4 :: real]. \<bar>bs ! k\<bar> \<le> \<bar>[3, - 4] ! k\<bar>
                 \<and> (bs ! k = 0 \<or> sgn (bs ! k) = sgn ([3, - 4] ! k))))"
proof -
  have h1: "length [3, - 4 :: real] \<le> length [1, 1 :: real]" by simp
  have h2: "\<forall>w\<in>set [1, 1 :: real]. 0 \<le> w" by simp
  show ?thesis
  proof (intro conjI)
    show "\<exists>bs. GetProxOne (map Fin [3, - 4]) (map Fin [1, 1]) = Some (map Fin bs)
           \<and> length bs = length [3, - 4 :: real]
           \<and> (\<forall>k<length [3, - 4 :: real]. \<bar>bs ! k\<bar> \<le> \<bar>[3, - 4] ! k\<bar>
                 \<and> (bs ! k = 0 \<or> sgn (bs ! k) = sgn ([3, - 4] ! k)))"
      by (rule GetProxOne_contraction[OF h1 h2])
  qed simp_all
qed

text \<open>
  Claim C1, as stated, fails: an entry of \<open>y\<close> that is zero stays zero whatever the
  later entries become. For \<open>y = (0, 4)\<close> and the weights \<open>(1, 1)\<close> the result is \<open>(0, 2)\<close>.
\<close>

theorem hierarchy_counterexample:
  "GetProxOne [Fin 0, Fin 4] [Fin 1, Fin 1] = Some [Fin 0, Fin 2]"
  by (simp add: GetProxOne_def shrink_step_def shrink_factor_def norm_arma_def cpp_max_def
      direct_max_def scale_def dsub_def numeral_2_eq_2 sqrt_16 sqrt_9)

text \<open>
  The loop of \<^verbatim>\<open>GetProxOne\<close> is the run of its steps \<open>p - 1\<close>, ..., \<open>j + 1\<close> followed by
  the steps \<open>j\<close>, ..., \<open>0\<close>.
\<close>

lemma prox_loop_steps: "prox_loop m w b = prox_steps w b 0 m"
  by (induction m arbitrary: b) (simp_all split: option.splits)

lemma prox_steps_split:
  "prox_steps w b 0 (j + m)
   = (case prox_steps w b j m of None \<Rightarrow> None | Some b' \<Rightarrow> prox_steps w b' 0 j)"
proof (induction m arbitrary: b)
  case 0
  show ?case by simp
next
  case (Suc m)
  show ?case
  proof (cases "shrink_step w b (j + m)")
    case None
    then show ?thesis by simp
  next
    case (Some b1)
    with Suc[of b1] show ?thesis by simp
  qed
qed

lemma prox_steps_Fin:
  "j + m \<le> length ws \<Longrightarrow> \<forall>w\<in>set ws. 0 \<le> w \<Longrightarrow>
   \<exists>bs'. prox_steps (map Fin ws) (map Fin bs) j m = Some (map Fin bs') \<and> length bs' = length bs"
proof (induction m arbitrary: bs)
  case 0
  show ?case by (intro exI[of _ bs]) simp
next
  case (Suc m)
  from Suc.prems have jm: "j + m < length ws" by simp
  with Suc.prems(2) have "0 \<le> ws ! (j + m)" by simp
  with jm have st: "shrink_step (map Fin ws) (map Fin bs) (j + m)
      = Some (map Fin (rstep ws bs (j + m)))"
    by (rule shrink_step_Fin)
  from Suc.prems have "j + m \<le> length ws" by simp
  from Suc.IH[OF this Suc.prems(2), of "rstep ws bs (j + m)"] st
  show ?case by (simp add: length_rstep)
qed

lemma rstep_zero_factor:
  assumes "rfactor (ws ! j) (drop j bs) = 0" and "j \<le> k" and "k < length bs"
  shows "rstep ws bs j ! k = 0"
  using assms by (simp add: rstep_nth)

lemma rprox_keeps_zero:
  assumes "\<forall>i<j. 0 \<le> ws ! i" and "k < length bs" and "bs ! k = 0"
  shows "rprox j ws bs ! k = 0"
proof -
  from rprox_factors[OF assms(1), of bs] obtain F where
    "\<forall>k<length bs. rprox j ws bs ! k = F k * bs ! k" by (elim exE conjE)
  with assms(2,3) show ?thesis by simp
qed

lemma sqrt_25: "sqrt 25 = 5" using real_sqrt_abs[of 5] by simp

lemma prox_steps_example:
  "prox_steps (map Fin [5, 0]) (map Fin [3, 4]) (Suc 0) (length [3, 4 :: real] - Suc 0)
     = Some (map Fin [3, 4])"
  by (simp add: shrink_step_def shrink_factor_def norm_arma_def cpp_max_def direct_max_def
      scale_def dsub_def sqrt_16)

lemma shrink_factor_example:
  "shrink_factor (map Fin [5, 0]) (map Fin [3, 4]) 0 = Fin 0"
  by (simp add: shrink_factor_def norm_arma_def cpp_max_def direct_max_def dsub_def sqrt_25)

text \<open>
  Claim C1, amended. For finite \<open>y\<close> and finite weights that are not negative, and for
  every index \<open>j\<close> of \<open>y\<close>: the loop reaches step \<open>j\<close> with some vector \<open>b\<close> and returns;
  and when the scaling factor of step \<open>j\<close> on \<open>b\<close> is zero, every entry of the result
  from index \<open>j\<close> on is zero. The same holds for a column of \<^verbatim>\<open>GetProx\<close> computed from
  these weights. (A zero entry of the result that comes from a zero entry of \<open>y\<close> says
  nothing about the later entries.)
\<close>

theorem GetProxOne_hierarchy:
  assumes "length ys \<le> length ws" and "\<forall>w\<in>set ws. 0 \<le> w" and "j < length ys"
  shows "\<exists>b bs. prox_steps (map Fin ws) (map Fin ys) (Suc j) (length ys - Suc j) = Some b
           \<and> GetProxOne (map Fin ys) (map Fin ws) = Some (map Fin bs)
           \<and> length bs = length ys
           \<and> (shrink_factor (map Fin ws) b j = Fin 0
                \<longrightarrow> (\<forall>k. j \<le> k \<and> k < length ys \<longrightarrow> bs ! k = 0))
           \<and> (\<forall>W B i. GetProx (map Fin ys) W = Some B \<and> i < length W \<and> W ! i = map Fin ws
                  \<longrightarrow> B ! i = map Fin bs)"
proof -
  let ?p = "length ys"
  from assms(1,3) have le: "Suc j + (?p - Suc j) \<le> length ws" by simp
  from prox_steps_Fin[OF le assms(2), of ys] obtain bj where
    bj: "prox_steps (map Fin ws) (map Fin ys) (Suc j) (?p - Suc j) = Some (map Fin bj)"
    and lbj: "length bj = ?p"
    by blast
  define bs where "bs = rprox (Suc j) ws bj"
  have nnj: "\<forall>i<Suc j. 0 \<le> ws ! i" using assms by simp
  from assms(1,3) have jw: "Suc j \<le> length ws" by simp
  have "GetProxOne (map Fin ys) (map Fin ws) = prox_steps (map Fin ws) (map Fin ys) 0 ?p"
    by (simp add: GetProxOne_def prox_loop_steps)
  also have "?p = Suc j + (?p - Suc j)" using assms(3) by simp
  also have "prox_steps (map Fin ws) (map Fin ys) 0 (Suc j + (?p - Suc j))
      = prox_steps (map Fin ws) (map Fin bj) 0 (Suc j)"
    by (simp only: prox_steps_split bj option.case)
  also have "\<dots> = prox_loop (Suc j) (map Fin ws) (map Fin bj)"
    by (simp only: prox_loop_steps)
  also have "\<dots> = Some (map Fin bs)"
    unfolding bs_def using jw nnj by (rule prox_loop_Fin)
  finally have one: "GetProxOne (map Fin ys) (map Fin ws) = Some (map Fin bs)" .
  have lbs: "length bs = ?p" by (simp add: bs_def length_rprox length_rstep lbj)
  have zero: "bs ! k = 0"
    if f: "shrink_factor (map Fin ws) (map Fin bj) j = Fin 0" and k: "j \<le> k" "k < ?p" for k
  proof -
    from assms have jl: "j < length ws" and wj: "0 \<le> ws ! j" by simp_all
    from f shrink_factor_Fin[OF jl wj, of bj] have "rfactor (ws ! j) (drop j bj) = 0" by simp
    with k lbj have "rstep ws bj j ! k = 0" by (intro rstep_zero_factor) simp_all
    moreover have "\<forall>i<j. 0 \<le> ws ! i" using nnj by simp
    moreover have "k < length (rstep ws bj j)" using k lbj by (simp add: length_rstep)
    ultimately have "rprox j ws (rstep ws bj j) ! k = 0" by (intro rprox_keeps_zero)
    then show ?thesis by (simp add: bs_def)
  qed
  have cols: "B ! i = map Fin bs"
    if "GetProx (map Fin ys) W = Some B" "i < length W" "W ! i = map Fin ws" for W B i
  proof -
    from that(1) have "\<forall>i<length W. GetProxOne (map Fin ys) (W ! i) = Some (B ! i)"
      by (simp add: GetProx_Some_iff)
    with that(2) have "GetProxOne (map Fin ys) (W ! i) = Some (B ! i)" by blast
    with that(3) one show ?thesis by simp
  qed
  show ?thesis
  proof (intro exI[of _ "map Fin bj"] exI[of _ bs] conjI)
    show "prox_steps (map Fin ws) (map Fin ys) (Suc j) (?p - Suc j) = Some (map Fin bj)"
      by (rule bj)
    show "GetProxOne (map Fin ys) (map Fin ws) = Some (map Fin bs)" by (rule one)
    show "length bs = ?p" by (rule lbs)
    show "shrink_factor (map Fin ws) (map Fin bj) j = Fin 0
            \<longrightarrow> (\<forall>k. j \<le> k \<and> k < ?p \<longrightarrow> bs ! k = 0)"
      using zero by blast
    show "\<forall>W B i. GetProx (map Fin ys) W = Some B \<and> i < length W \<and> W ! i = map Fin ws
            \<longrightarrow> B ! i = map Fin bs"
      using cols by blast
  qed
qed

theorem GetProxOne_hierarchy_witness:
  "length [3, 4 :: real] \<le> length [5, 0 :: real] \<and> (0::real) \<le> 5 \<and> (0::real) \<le> 0
   \<and> (0::nat) < length [3, 4 :: real]
   \<and> prox_steps (map Fin [5, 0]) (map Fin [3, 4]) (Suc 0) (length [3, 4 :: real] - Suc 0)
       = Some (map Fin [3, 4])
   \<and> shrink_factor (map Fin [5, 0]) (map Fin [3, 4]) 0 = Fin 0
   \<and> (\<exists>bs. GetProxOne (map Fin [3, 4]) (map Fin [5, 0]) = Some (map Fin bs)
          \<and> bs ! 0 = 0 \<and> bs ! 1 = 0)"
proof -
  have h1: "length [3, 4 :: real] \<le> length [5, 0 :: real]" by simp
  have h2: "\<forall>w\<in>set [5, 0 :: real]. 0 \<le> w" by simp
  have h3: "(0::nat) < length [3, 4 :: real]" by simp
  from GetProxOne_hierarchy[OF h1 h2 h3] obtain b bs where
    b: "prox_steps (map Fin [5, 0]) (map Fin [3, 4]) (Suc 0) (length [3, 4 :: real] - Suc 0)
          = Some b"
    and g: "GetProxOne (map Fin [3, 4]) (map Fin [5, 0]) = Some (map Fin bs)"
    and z: "shrink_factor (map Fin [5, 0]) b 0 = Fin 0
              \<longrightarrow> (\<forall>k. 0 \<le> k \<and> k < length [3, 4 :: real] \<longrightarrow> bs ! k = 0)"
    by blast
  from b prox_steps_example have "b = map Fin [3, 4]" by simp
  with z shrink_factor_example
  have all: "\<forall>k. 0 \<le> k \<and> k < length [3, 4 :: real] \<longrightarrow> bs ! k = 0" by simp
  then have "bs ! 0 = 0" "bs ! 1 = 0" by simp_all
  with g have "\<exists>bs. GetProxOne (map Fin [3, 4]) (map Fin [5, 0]) = Some (map Fin bs)
          \<and> bs ! 0 = 0 \<and> bs ! 1 = 0"
    by blast
  with h1 h3 prox_steps_example shrink_factor_example show ?thesis by simp
qed

text \<open>
  The weights must not be negative: with a negative weight on a zero suffix the factor
  is \<open>+\<infinity>\<close> and its product with the zero entries is NaN. For \<open>y = (1, 0)\<close> and the weights
  \<open>(0, -1)\<close> the result is \<open>(0, NaN)\<close>.
\<close>

lemma GetProxOne_negative_weight:
  "GetProxOne [Fin 1, Fin 0] [Fin 0, Fin (- 1)] = Some [Fin 0, NaN]"
  by (simp add: GetProxOne_def shrink_step_def shrink_factor_def norm_arma_def cpp_max_def
      direct_max_def scale_def dsub_def numeral_2_eq_2)

section \<open>The zero-norm step\<close>

lemma norm_arma_zero_iff:
  "norm_arma (map Fin bs) = Fin 0 \<longleftrightarrow> (\<forall>x\<in>set bs. x = 0)"
  by (simp add: norm_arma_Fin sumsq_zero_iff)

lemma scale_zero_vector: "\<forall>x\<in>set bs. x = 0 \<Longrightarrow> scale (Fin 0) (map Fin bs) = map Fin bs"
  by (induction bs) (simp_all add: scale_def)

lemma shrink_factor_zero_norm:
  assumes "j < length ws" and "0 < ws ! j" and "norm_arma (drop j (map Fin bs)) = Fin 0"
  shows "shrink_factor (map Fin ws) (map Fin bs) j = Fin 0"
  using assms by (simp add: shrink_factor_def dsub_def cpp_max_MInf)

text \<open>
  Claim C5. For finite \<open>y\<close> and finite, strictly positive weights: the call returns a
  vector of finite doubles, and so does the loop from every finite vector (no NaN and no
  infinity in the result); and at a step \<open>j\<close> where the norm of the suffix is zero, the
  scaling factor is \<open>0\<close> (the division gives \<open>+\<infinity>\<close>, the difference \<open>-\<infinity>\<close>, and \<^verbatim>\<open>cpp_max\<close>
  returns \<open>0\<close>), the vector is left as it is, and its suffix is zero.
\<close>

theorem zero_norm_safe:
  assumes "length ys \<le> length ws" and "\<forall>w\<in>set ws. 0 < w"
  shows "(\<exists>bs. GetProxOne (map Fin ys) (map Fin ws) = Some (map Fin bs))
       \<and> (\<forall>j\<le>length ws. \<forall>bs. \<exists>bs'. prox_loop j (map Fin ws) (map Fin bs) = Some (map Fin bs'))
       \<and> (\<forall>j<length ws. \<forall>bs. norm_arma (drop j (map Fin bs)) = Fin 0 \<longrightarrow>
             shrink_factor (map Fin ws) (map Fin bs) j = Fin 0
           \<and> shrink_step (map Fin ws) (map Fin bs) j = Some (map Fin bs)
           \<and> (\<forall>k. j \<le> k \<and> k < length bs \<longrightarrow> bs ! k = 0))"
proof (intro conjI allI impI)
  from assms(2) have nn: "\<forall>w\<in>set ws. 0 \<le> w" by (simp add: less_imp_le)
  with assms(1) show "\<exists>bs. GetProxOne (map Fin ys) (map Fin ws) = Some (map Fin bs)"
    using GetProxOne_Fin by blast
  fix j bs
  assume "j \<le> length ws"
  with nn have "prox_loop j (map Fin ws) (map Fin bs) = Some (map Fin (rprox j ws bs))"
    by (intro prox_loop_Fin) simp_all
  then show "\<exists>bs'. prox_loop j (map Fin ws) (map Fin bs) = Some (map Fin bs')" by blast
next
  fix j bs
  assume j: "j < length ws" and z: "norm_arma (drop j (map Fin bs)) = Fin 0"
  from j assms(2) have pos: "0 < ws ! j" by simp
  from j pos z show f: "shrink_factor (map Fin ws) (map Fin bs) j = Fin 0"
    by (rule shrink_factor_zero_norm)
  from z have zero: "\<forall>x\<in>set (drop j bs). x = 0"
    by (simp add: drop_map norm_arma_zero_iff)
  then have "scale (Fin 0) (drop j (map Fin bs)) = drop j (map Fin bs)"
    by (simp add: drop_map scale_zero_vector)
  with j f show "shrink_step (map Fin ws) (map Fin bs) j = Some (map Fin bs)"
    by (simp add: shrink_step_def)
  fix k
  assume "j \<le> k \<and> k < length bs"
  then have "bs ! k = drop j bs ! (k - j)" "k - j < length (drop j bs)"
    by (simp_all add: less_diff_conv2)
  then have "bs ! k \<in> set (drop j bs)"
    by (metis nth_mem)
  with zero show "bs ! k = 0" by simp
qed

theorem zero_norm_safe_witness:
  "length [5, 0 :: real] \<le> length [1, 1 :: real] \<and> (0::real) < 1
   \<and> norm_arma (drop 1 (map Fin [5, 0])) = Fin 0
   \<and> shrink_factor (map Fin [1, 1]) (map Fin [5, 0]) 1 = Fin 0
   \<and> shrink_step (map Fin [1, 1]) (map Fin [5, 0]) 1 = Some (map Fin [5, 0])
   \<and> (\<exists>bs. GetProxOne (map Fin [5, 0]) (map Fin [1, 1]) = Some (map Fin bs))"
proof -
  have h1: "length [5, 0 :: real] \<le> length [1, 1 :: real]" by simp
  have h2: "\<forall>w\<in>set [1, 1 :: real]. 0 < w" by simp
  have n: "norm_arma (drop 1 (map Fin [5, 0])) = Fin 0" by (simp add: norm_arma_def)
  note t = zero_norm_safe[OF h1 h2]
  from t have a: "\<exists>bs. GetProxOne (map Fin [5, 0]) (map Fin [1, 1]) = Some (map Fin bs)"
    by (elim conjE)
  from t have b: "\<forall>j<length [1, 1 :: real]. \<forall>bs. norm_arma (drop j (map Fin bs)) = Fin 0 \<longrightarrow>
             shrink_factor (map Fin [1, 1]) (map Fin bs) j = Fin 0
           \<and> shrink_step (map Fin [1, 1]) (map Fin bs) j = Some (map Fin bs)
           \<and> (\<forall>k. j \<le> k \<and> k < length bs \<longrightarrow> bs ! k = 0)"
    by (elim conjE)
  have l: "1 < length [1, 1 :: real]" by simp
  from b[rule_format, OF l n]
  have f: "shrink_factor (map Fin [1, 1]) (map Fin [5, 0]) 1 = Fin 0"
    and g: "shrink_step (map Fin [1, 1]) (map Fin [5, 0]) 1 = Some (map Fin [5, 0])"
    by blast+
  show ?thesis by (intro conjI h1 n f g a) simp
qed

section \<open>The path of penalties\<close>








section \<open>The loops of the additive fit\<close>

declare bcd_while.simps [simp del]

lemma bcd_while_stop:
  "\<not> real counter < max_iter \<Longrightarrow>
   bcd_while y X n tol max_iter p J tw i counter st = Some (False, st)"
  by (subst bcd_while.simps) simp

lemma bcd_while_cases:
  assumes "bcd_while y X n tol max_iter p J tw i counter st = Some (conv, st')"
  obtains
    (stop) "\<not> real counter < max_iter" "conv = False" "st' = st"
  | (pass) b' xb' where "real counter < max_iter" "J * p \<le> length (vectorise (beta st))"
      "sweep y X n tw p (beta st, x_beta st) = Some (b', xb')"
      "change_below_tol tol (take (J * p) (vectorise (beta st))) b'"
      "length (vectorise b') = p * J" "conv = True"
      "st' = st\<lparr>beta := b', x_beta := xb', beta_ans := (beta_ans st)[i := vectorise b']\<rparr>"
  | (again) b' xb' where "real counter < max_iter" "J * p \<le> length (vectorise (beta st))"
      "sweep y X n tw p (beta st, x_beta st) = Some (b', xb')"
      "\<not> change_below_tol tol (take (J * p) (vectorise (beta st))) b'"
      "bcd_while y X n tol max_iter p J tw i (counter + 1)
         (st\<lparr>beta := b', x_beta := xb',
             warnings := (if real (counter + 1) = max_iter
                          then Suc (warnings st) else warnings st)\<rparr>) = Some (conv, st')"
  using assms
  by (subst (asm) bcd_while.simps) (auto split: if_splits option.splits prod.splits)

lemma bcd_while_beta_ans:
  "bcd_while y X n tol max_iter p J tw i counter st = Some (conv, st') \<Longrightarrow>
   beta_ans st' = (if conv then (beta_ans st)[i := vectorise (beta st')] else beta_ans st)"
proof (induction y X n tol max_iter p J tw i counter st rule: bcd_while.induct)
  case (1 y X n tol max_iter p J tw i counter st)
  from "1.prems" show ?case
  proof (cases rule: bcd_while_cases)
    case stop
    then show ?thesis by simp
  next
    case (pass b' xb')
    then show ?thesis by simp
  next
    case (again b' xb')
    from "1.IH"[OF again(1,2,3) refl again(4,5)] show ?thesis by simp
  qed
qed

lemma bcd_while_warnings:
  "bcd_while y X n tol max_iter p J tw i counter st = Some (False, st') \<Longrightarrow>
   max_iter = real m \<Longrightarrow> counter < m \<Longrightarrow> warnings st' = Suc (warnings st)"
proof (induction y X n tol max_iter p J tw i counter st rule: bcd_while.induct)
  case (1 y X n tol max_iter p J tw i counter st)
  note mi = \<open>max_iter = real m\<close>
  from "1.prems"(1) show ?case
  proof (cases rule: bcd_while_cases)
    case stop
    with "1.prems"(2,3) show ?thesis by simp
  next
    case (pass b' xb')
    then show ?thesis by simp
  next
    case (again b' xb')
    show ?thesis
    proof (cases "counter + 1 = m")
      case True
      define S where "S = st\<lparr>beta := b', x_beta := xb', warnings := Suc (warnings st)\<rparr>"
      from True mi have "\<not> real (counter + 1) < max_iter" by simp
      then have "bcd_while y X n tol max_iter p J tw i (counter + 1) S = Some (False, S)"
        by (rule bcd_while_stop)
      moreover from again(5) True mi
      have "bcd_while y X n tol max_iter p J tw i (counter + 1) S = Some (False, st')"
        by (simp add: S_def)
      ultimately have "st' = S" by simp
      then show ?thesis by (simp add: S_def)
    next
      case False
      with "1.prems"(3) have lt: "counter + 1 < m" by simp
      from False mi have ne: "real (counter + 1) \<noteq> max_iter"
        by (simp only: of_nat_eq_iff) simp
      from "1.IH"[OF again(1,2,3) refl again(4,5) mi lt] ne show ?thesis by simp
    qed
  qed
qed

lemma bcd_while_short:
  "real counter < max_iter \<Longrightarrow> \<not> J * p \<le> length (vectorise (beta st)) \<Longrightarrow>
   bcd_while y X n tol max_iter p J tw i counter st = None"
  by (subst bcd_while.simps) simp

lemma bcd_while_sweep_None:
  "real counter < max_iter \<Longrightarrow> sweep y X n tw p (beta st, x_beta st) = None \<Longrightarrow>
   bcd_while y X n tol max_iter p J tw i counter st = None"
  by (subst bcd_while.simps) simp

lemma bcd_while_pass:
  "real counter < max_iter \<Longrightarrow> J * p \<le> length (vectorise (beta st)) \<Longrightarrow>
   sweep y X n tw p (beta st, x_beta st) = Some (b', xb') \<Longrightarrow>
   change_below_tol tol (take (J * p) (vectorise (beta st))) b' \<Longrightarrow>
   bcd_while y X n tol max_iter p J tw i counter st
   = (if length (vectorise b') = p * J
      then Some (True, st\<lparr>beta := b', x_beta := xb',
                            beta_ans := (beta_ans st)[i := vectorise b']\<rparr>)
      else None)"
  by (subst bcd_while.simps) simp

lemma bcd_while_again:
  "real counter < max_iter \<Longrightarrow> J * p \<le> length (vectorise (beta st)) \<Longrightarrow>
   sweep y X n tw p (beta st, x_beta st) = Some (b', xb') \<Longrightarrow>
   \<not> change_below_tol tol (take (J * p) (vectorise (beta st))) b' \<Longrightarrow>
   bcd_while y X n tol max_iter p J tw i counter st
   = bcd_while y X n tol max_iter p J tw i (counter + 1)
       (st\<lparr>beta := b', x_beta := xb',
           warnings := (if real (counter + 1) = max_iter
                        then Suc (warnings st) else warnings st)\<rparr>)"
  by (subst bcd_while.simps) simp

lemma bcd_while_beta_ans_irrelevant:
  "bcd_while y X n tol max_iter p J tw i counter (st\<lparr>beta_ans := A\<rparr>)
   = map_option (\<lambda>(conv, s). (conv, s\<lparr>beta_ans := (if conv then A[i := vectorise (beta s)] else A)\<rparr>))
       (bcd_while y X n tol max_iter p J tw i counter st)"
proof (induction y X n tol max_iter p J tw i counter st rule: bcd_while.induct)
  case (1 y X n tol max_iter p J tw i counter st)
  let ?st = "st\<lparr>beta_ans := A\<rparr>"
  have same: "beta ?st = beta st" "x_beta ?st = x_beta st" by simp_all
  show ?case
  proof (cases "real counter < max_iter")
    case False
    then show ?thesis by (simp add: bcd_while_stop)
  next
    case lt: True
    show ?thesis
    proof (cases "J * p \<le> length (vectorise (beta st))")
      case False
      with lt show ?thesis by (simp add: bcd_while_short)
    next
      case len: True
      show ?thesis
      proof (cases "sweep y X n tw p (beta st, x_beta st)")
        case None
        with lt show ?thesis by (simp add: bcd_while_sweep_None)
      next
        case (Some bx)
        obtain b' xb' where bx: "bx = (b', xb')" by (cases bx)
        note sw = Some[unfolded bx]
        have sw': "sweep y X n tw p (beta ?st, x_beta ?st) = Some (b', xb')"
          using sw by simp
        have len': "J * p \<le> length (vectorise (beta ?st))" using len by simp
        show ?thesis
        proof (cases "change_below_tol tol (take (J * p) (vectorise (beta st))) b'")
          case True
          then have t': "change_below_tol tol (take (J * p) (vectorise (beta ?st))) b'" by simp
          show ?thesis
            by (simp only: bcd_while_pass[OF lt len sw True] bcd_while_pass[OF lt len' sw' t'])
               simp
        next
          case False
          then have t': "\<not> change_below_tol tol (take (J * p) (vectorise (beta ?st))) b'"
            by simp
          let ?w = "if real (counter + 1) = max_iter then Suc (warnings st) else warnings st"
          have eq: "?st\<lparr>beta := b', x_beta := xb',
                  warnings := (if real (counter + 1) = max_iter
                               then Suc (warnings ?st) else warnings ?st)\<rparr>
              = (st\<lparr>beta := b', x_beta := xb', warnings := ?w\<rparr>)\<lparr>beta_ans := A\<rparr>"
            by simp
          have "bcd_while y X n tol max_iter p J tw i counter ?st
              = bcd_while y X n tol max_iter p J tw i (counter + 1)
                  ((st\<lparr>beta := b', x_beta := xb', warnings := ?w\<rparr>)\<lparr>beta_ans := A\<rparr>)"
            by (simp only: bcd_while_again[OF lt len' sw' t'] eq)
          also have "\<dots> = map_option (\<lambda>(conv, s). (conv, s\<lparr>beta_ans := (if conv then A[i := vectorise (beta s)] else A)\<rparr>))
              (bcd_while y X n tol max_iter p J tw i (counter + 1)
                (st\<lparr>beta := b', x_beta := xb', warnings := ?w\<rparr>))"
            by (rule "1.IH"[OF lt len Some bx[symmetric] False])
          also have "bcd_while y X n tol max_iter p J tw i (counter + 1)
                (st\<lparr>beta := b', x_beta := xb', warnings := ?w\<rparr>)
              = bcd_while y X n tol max_iter p J tw i counter st"
            by (simp only: bcd_while_again[OF lt len sw False])
          finally show ?thesis .
        qed
      qed
    qed
  qed
qed

lemma FitAdditive_outer_Suc_cases:
  assumes "FitAdditive_outer y W xb0 X b0 tol p J n nlam max_iter (Suc i) = Some st'"
  obtains st conv where
    "FitAdditive_outer y W xb0 X b0 tol p J n nlam max_iter i = Some st"
    "i < length W"
    "bcd_while y X n tol max_iter p J (vdiv (W ! i) (Fin (of_int n))) i 0 st = Some (conv, st')"
  using assms by (auto split: option.splits if_splits)

lemma FitAdditive_outer_prefix:
  "FitAdditive_outer y W xb0 X b0 tol p J n nlam max_iter k = Some st \<Longrightarrow> j \<le> k \<Longrightarrow>
   \<exists>st0. FitAdditive_outer y W xb0 X b0 tol p J n nlam max_iter j = Some st0"
proof (induction k arbitrary: st)
  case 0
  then show ?case by simp
next
  case (Suc k)
  show ?case
  proof (cases "j = Suc k")
    case True
    with Suc.prems show ?thesis by blast
  next
    case False
    with Suc.prems have "j \<le> k" by simp
    from Suc.prems(1) obtain s where
      "FitAdditive_outer y W xb0 X b0 tol p J n nlam max_iter k = Some s"
      by (rule FitAdditive_outer_Suc_cases)
    from Suc.IH[OF this \<open>j \<le> k\<close>] show ?thesis .
  qed
qed

lemma FitAdditive_outer_inv:
  "FitAdditive_outer y W xb0 X b0 tol p J n nlam max_iter k = Some st \<Longrightarrow>
   length (beta_ans st) = nlam
   \<and> (\<forall>c. k \<le> c \<and> c < nlam \<longrightarrow> beta_ans st ! c = replicate (p * J) (Fin 0))"
proof (induction k arbitrary: st)
  case 0
  then show ?case by auto
next
  case (Suc k)
  from Suc.prems obtain s conv where
    s: "FitAdditive_outer y W xb0 X b0 tol p J n nlam max_iter k = Some s" and
    run: "bcd_while y X n tol max_iter p J (vdiv (W ! k) (Fin (of_int n))) k 0 s = Some (conv, st)"
    by (rule FitAdditive_outer_Suc_cases)
  from bcd_while_beta_ans[OF run]
  have "beta_ans st = beta_ans s \<or> (\<exists>v. beta_ans st = (beta_ans s)[k := v])"
    by (cases conv) auto
  with Suc.IH[OF s] show ?case by auto
qed

lemma FitAdditive_outer_column_stable:
  "FitAdditive_outer y W xb0 X b0 tol p J n nlam max_iter k2 = Some st2 \<Longrightarrow>
   FitAdditive_outer y W xb0 X b0 tol p J n nlam max_iter k = Some st \<Longrightarrow>
   i < k \<Longrightarrow> k \<le> k2 \<Longrightarrow> beta_ans st2 ! i = beta_ans st ! i"
proof (induction k2 arbitrary: st2)
  case 0
  then show ?case by simp
next
  case (Suc k2)
  show ?case
  proof (cases "k = Suc k2")
    case True
    with Suc.prems show ?thesis by simp
  next
    case False
    with Suc.prems have le: "k \<le> k2" by simp
    from Suc.prems(1) obtain s conv where
      s: "FitAdditive_outer y W xb0 X b0 tol p J n nlam max_iter k2 = Some s" and
      run: "bcd_while y X n tol max_iter p J (vdiv (W ! k2) (Fin (of_int n))) k2 0 s
              = Some (conv, st2)"
      by (rule FitAdditive_outer_Suc_cases)
    from Suc.prems le have "i \<noteq> k2" by simp
    with bcd_while_beta_ans[OF run] have "beta_ans st2 ! i = beta_ans s ! i"
      by (cases conv) simp_all
    with Suc.IH[OF s Suc.prems(2,3) le] show ?thesis by simp
  qed
qed

lemma FitAdditive_outer_agree:
  "k \<le> Suc i \<Longrightarrow> take (Suc i) W = take (Suc i) W' \<Longrightarrow>
   FitAdditive_outer y W xb0 X b0 tol p J n nlam max_iter k = Some st \<Longrightarrow>
   FitAdditive_outer y W' xb0 X b0 tol p J n nlam' max_iter k = Some st' \<Longrightarrow>
   beta st = beta st' \<and> x_beta st = x_beta st' \<and> warnings st = warnings st'
   \<and> (\<forall>c<k. c < nlam \<and> c < nlam' \<longrightarrow> beta_ans st ! c = beta_ans st' ! c)"
proof (induction k arbitrary: st st')
  case 0
  then show ?case by auto
next
  case (Suc k)
  from Suc.prems(3) obtain s conv where
    s: "FitAdditive_outer y W xb0 X b0 tol p J n nlam max_iter k = Some s" and
    kW: "k < length W" and
    run: "bcd_while y X n tol max_iter p J (vdiv (W ! k) (Fin (of_int n))) k 0 s = Some (conv, st)"
    by (rule FitAdditive_outer_Suc_cases)
  from Suc.prems(4) obtain s' conv' where
    s': "FitAdditive_outer y W' xb0 X b0 tol p J n nlam' max_iter k = Some s'" and
    kW': "k < length W'" and
    run': "bcd_while y X n tol max_iter p J (vdiv (W' ! k) (Fin (of_int n))) k 0 s'
             = Some (conv', st')"
    by (rule FitAdditive_outer_Suc_cases)
  from Suc.prems(1) have "k \<le> Suc i" "k < Suc i" by simp_all
  from Suc.IH[OF this(1) Suc.prems(2) s s'] have
    ih: "beta s = beta s'" "x_beta s = x_beta s'" "warnings s = warnings s'"
        "\<forall>c<k. c < nlam \<and> c < nlam' \<longrightarrow> beta_ans s ! c = beta_ans s' ! c"
    by simp_all
  have "take (Suc i) W ! k = take (Suc i) W' ! k" using Suc.prems(2) by simp
  with \<open>k < Suc i\<close> have col: "W ! k = W' ! k" by simp
  have "s' = s\<lparr>beta_ans := beta_ans s'\<rparr>" using ih(1,2,3) by simp
  then have "bcd_while y X n tol max_iter p J (vdiv (W ! k) (Fin (of_int n))) k 0
               (s\<lparr>beta_ans := beta_ans s'\<rparr>) = Some (conv', st')"
    using run' col by simp
  then have res: "conv' = conv"
      "st' = st\<lparr>beta_ans := (if conv then (beta_ans s')[k := vectorise (beta st)] else beta_ans s')\<rparr>"
    by (auto simp: bcd_while_beta_ans_irrelevant run)
  note inv = FitAdditive_outer_inv[OF s] FitAdditive_outer_inv[OF s']
  have ans: "beta_ans st = (if conv then (beta_ans s)[k := vectorise (beta st)] else beta_ans s)"
    using run by (rule bcd_while_beta_ans)
  have "beta_ans st ! c = beta_ans st' ! c" if "c < Suc k" "c < nlam" "c < nlam'" for c
  proof (cases "c = k")
    case True
    show ?thesis
    proof (cases conv)
      case True
      with \<open>c = k\<close> that inv ans res(2) show ?thesis by simp
    next
      case False
      from inv that \<open>c = k\<close> have "beta_ans s ! k = replicate (p * J) (Fin 0)"
        "beta_ans s' ! k = replicate (p * J) (Fin 0)" by simp_all
      with False \<open>c = k\<close> ans res(2) show ?thesis by simp
    qed
  next
    case False
    with that have "c < k" by simp
    with ih(4) that have "beta_ans s ! c = beta_ans s' ! c" by simp
    with False ans res(2) show ?thesis by simp
  qed
  with res(2) show ?case by simp
qed

lemma prox_loop_length: "prox_loop j w b = Some b' \<Longrightarrow> length b' = length b"
proof (induction j arbitrary: b)
  case 0
  then show ?case by simp
next
  case (Suc j)
  from Suc.prems obtain b1 where
    b1: "shrink_step w b j = Some b1" and r: "prox_loop j w b1 = Some b'"
    by (auto split: option.splits)
  from b1 have "length b1 = length b"
    by (auto simp: shrink_step_def scale_def split: if_splits)
  with Suc.IH[OF r] show ?case by simp
qed

lemma GetProxOne_length: "GetProxOne v w = Some b \<Longrightarrow> length b = length v"
  unfolding GetProxOne_def by (rule prox_loop_length)

lemma length_concat_update:
  assumes "j < length xs" and "length v = length (xs ! j)"
  shows "length (concat (xs[j := v])) = length (concat xs)"
proof -
  have "map length (xs[j := v]) = (map length xs)[j := length v]" by (simp add: map_update)
  also have "\<dots> = map length xs" using assms by (simp add: list_update_same_conv)
  finally show ?thesis by (simp add: length_concat)
qed

lemma block_update_size:
  "block_update y X n tw j (b, xb) = Some (b', xb') \<Longrightarrow>
   length (vectorise b') = length (vectorise b)"
proof -
  assume a: "block_update y X n tw j (b, xb) = Some (b', xb')"
  then obtain v tb where
    j: "j < length b" and len: "length (X ! j) = length (b ! j)" and
    g: "GetProxOne v tw = Some tb" and v: "length v = length (X ! j)" and
    b': "b' = b[j := tb]"
    by (auto simp: block_update_def Let_def trans_mat_vec_def split: if_splits option.splits)
  from GetProxOne_length[OF g] v len have "length tb = length (b ! j)" by simp
  with j show ?thesis by (simp add: b' vectorise_def length_concat_update)
qed

lemma sweep_size:
  "sweep y X n tw j bx = Some bx' \<Longrightarrow> length (vectorise (fst bx')) = length (vectorise (fst bx))"
proof (induction j arbitrary: bx')
  case 0
  then show ?case by simp
next
  case (Suc j)
  from Suc.prems obtain bx1 where
    s: "sweep y X n tw j bx = Some bx1" and u: "block_update y X n tw j bx1 = Some bx'"
    by (auto split: option.splits)
  obtain b1 xb1 where bx1: "bx1 = (b1, xb1)" by (cases bx1)
  obtain b' xb' where bx': "bx' = (b', xb')" by (cases bx')
  from u have "length (vectorise b') = length (vectorise b1)"
    unfolding bx1 bx' by (rule block_update_size)
  with Suc.IH[OF s] show ?case by (simp add: bx1 bx')
qed

lemma sweep_passes_0:
  "sweep y X n tw p (b, xb) = Some (b', xb') \<Longrightarrow>
   sweep_passes y X n tw p tol 0 (b, xb) = change_below_tol tol (vectorise b) b'"
  by (simp add: sweep_passes_def)

lemma sweep_passes_Suc:
  "sweep y X n tw p bx = Some bx' \<Longrightarrow>
   sweep_passes y X n tw p tol (Suc k) bx = sweep_passes y X n tw p tol k bx'"
  by (simp add: sweep_passes_def)

lemma bcd_while_characterisation:
  "bcd_while y X n tol max_iter p J tw i counter st = Some (conv, st') \<Longrightarrow>
   length (vectorise (beta st)) = J * p \<Longrightarrow>
   (conv \<longrightarrow> (\<exists>k b' xb'. real (counter + k) < max_iter
        \<and> sweep_passes y X n tw p tol k (beta st, x_beta st)
        \<and> (\<forall>k'<k. \<not> sweep_passes y X n tw p tol k' (beta st, x_beta st))
        \<and> sweeps y X n tw p (Suc k) (beta st, x_beta st) = Some (b', xb')
        \<and> beta st' = b' \<and> x_beta st' = xb'
        \<and> beta_ans st' = (beta_ans st)[i := vectorise b']))
   \<and> (\<not> conv \<longrightarrow> (\<forall>k. real (counter + k) < max_iter
                        \<longrightarrow> \<not> sweep_passes y X n tw p tol k (beta st, x_beta st))
                \<and> beta_ans st' = beta_ans st)"
proof (induction y X n tol max_iter p J tw i counter st rule: bcd_while.induct)
  case (1 y X n tol max_iter p J tw i counter st)
  note size = \<open>length (vectorise (beta st)) = J * p\<close>
  let ?bx = "(beta st, x_beta st)"
  from "1.prems"(1) show ?case
  proof (cases rule: bcd_while_cases)
    case stop
    have "\<not> real (counter + k) < max_iter" for k
    proof
      assume "real (counter + k) < max_iter"
      moreover have "real counter \<le> real (counter + k)" by simp
      ultimately have "real counter < max_iter" by (rule le_less_trans[rotated])
      with stop(1) show False by simp
    qed
    with stop show ?thesis by simp
  next
    case (pass b' xb')
    from pass(4) size have t: "change_below_tol tol (vectorise (beta st)) b'" by simp
    with pass(3) have p0: "sweep_passes y X n tw p tol 0 ?bx" by (simp add: sweep_passes_0)
    have "real (counter + 0) < max_iter
        \<and> sweep_passes y X n tw p tol 0 ?bx
        \<and> (\<forall>k'<0. \<not> sweep_passes y X n tw p tol k' ?bx)
        \<and> sweeps y X n tw p (Suc 0) ?bx = Some (b', xb')
        \<and> beta st' = b' \<and> x_beta st' = xb'
        \<and> beta_ans st' = (beta_ans st)[i := vectorise b']"
      using pass p0 by simp
    then have "\<exists>k b' xb'. real (counter + k) < max_iter
        \<and> sweep_passes y X n tw p tol k ?bx
        \<and> (\<forall>k'<k. \<not> sweep_passes y X n tw p tol k' ?bx)
        \<and> sweeps y X n tw p (Suc k) ?bx = Some (b', xb')
        \<and> beta st' = b' \<and> x_beta st' = xb'
        \<and> beta_ans st' = (beta_ans st)[i := vectorise b']"
      by (intro exI)
    with pass(6) show ?thesis by simp
  next
    case (again b1 xb1)
    let ?st1 = "st\<lparr>beta := b1, x_beta := xb1,
                   warnings := (if real (counter + 1) = max_iter
                                then Suc (warnings st) else warnings st)\<rparr>"
    from again(4) size have nt: "\<not> change_below_tol tol (vectorise (beta st)) b1" by simp
    with again(3) have n0: "\<not> sweep_passes y X n tw p tol 0 ?bx" by (simp add: sweep_passes_0)
    have shift: "sweep_passes y X n tw p tol (Suc k) ?bx = sweep_passes y X n tw p tol k (b1, xb1)"
      for k using again(3) by (rule sweep_passes_Suc)
    from sweep_size[OF again(3)] size have size1: "length (vectorise (beta ?st1)) = J * p"
      by simp
    note ih = "1.IH"[OF again(1,2,3) refl again(4,5) size1]
    show ?thesis
    proof (cases conv)
      case True
      with ih obtain k b' xb' where k:
        "real (counter + 1 + k) < max_iter"
        "sweep_passes y X n tw p tol k (b1, xb1)"
        "\<forall>k'<k. \<not> sweep_passes y X n tw p tol k' (b1, xb1)"
        "sweeps y X n tw p (Suc k) (b1, xb1) = Some (b', xb')"
        "beta st' = b'" "x_beta st' = xb'"
        "beta_ans st' = (beta_ans st)[i := vectorise b']"
        by auto
      have first: "\<forall>k'<Suc k. \<not> sweep_passes y X n tw p tol k' ?bx"
      proof (intro allI impI)
        fix k' assume "k' < Suc k"
        show "\<not> sweep_passes y X n tw p tol k' ?bx"
        proof (cases k')
          case 0
          with n0 show ?thesis by simp
        next
          case (Suc k'')
          with \<open>k' < Suc k\<close> k(3) show ?thesis by (simp add: shift)
        qed
      qed
      have "real (counter + Suc k) < max_iter
        \<and> sweep_passes y X n tw p tol (Suc k) ?bx
        \<and> (\<forall>k'<Suc k. \<not> sweep_passes y X n tw p tol k' ?bx)
        \<and> sweeps y X n tw p (Suc (Suc k)) ?bx = Some (b', xb')
        \<and> beta st' = b' \<and> x_beta st' = xb'
        \<and> beta_ans st' = (beta_ans st)[i := vectorise b']"
        using k first again(3) by (simp add: shift)
      then have "\<exists>k b' xb'. real (counter + k) < max_iter
        \<and> sweep_passes y X n tw p tol k ?bx
        \<and> (\<forall>k'<k. \<not> sweep_passes y X n tw p tol k' ?bx)
        \<and> sweeps y X n tw p (Suc k) ?bx = Some (b', xb')
        \<and> beta st' = b' \<and> x_beta st' = xb'
        \<and> beta_ans st' = (beta_ans st)[i := vectorise b']"
        by (intro exI)
      with True show ?thesis by simp
    next
      case False
      with ih have none: "\<forall>k. real (counter + 1 + k) < max_iter
                        \<longrightarrow> \<not> sweep_passes y X n tw p tol k (b1, xb1)"
        and same: "beta_ans st' = beta_ans st"
        by simp_all
      have "\<not> sweep_passes y X n tw p tol k ?bx" if "real (counter + k) < max_iter" for k
      proof (cases k)
        case 0
        with n0 show ?thesis by simp
      next
        case (Suc k'')
        with that have "real (counter + 1 + k'') < max_iter" by simp
        with none have "\<not> sweep_passes y X n tw p tol k'' (b1, xb1)" by blast
        with Suc show ?thesis by (simp add: shift)
      qed
      with False same show ?thesis by simp
    qed
  qed
qed

section \<open>Runs of the additive fit on one observation\<close>

text \<open>
  The examples below have one observation, one block and one basis function, with
  \<open>y = (1)\<close> and the design \<open>X = (1)\<close>; a sweep from any state then gives
  \<open>beta = max (1 - w) 0\<close> for the weight \<open>w\<close>.
\<close>

lemma norm_arma_single: "norm_arma [Fin x] = Fin \<bar>x\<bar>"
  by (simp add: norm_arma_def)

lemmas fit_eval =
  FitAdditive_def bcd_while.simps block_update_def vadd_def vsub_def vdiv_def row_sums_def
  mat_vec_def dot_def trans_mat_vec_def vectorise_def change_below_tol_def dlt_def dsub_def
  scale_def GetProxOne_def shrink_step_def shrink_factor_def cpp_max_def direct_max_def
  norm_arma_single Let_def

lemma FitAdditive_example_quarter:
  "FitAdditive [Fin 1] [[Fin (1/4)]] [[Fin 0]] [[[Fin 1]]] [[Fin 0]] (Fin (3/10)) 1 1 1 1 1
     = Some ([[Fin 0]], 1)"
  by (simp add: fit_eval)

lemma FitAdditive_example_two:
  "FitAdditive [Fin 1] [[Fin (1/4)], [Fin (1/2)]] [[Fin 0]] [[[Fin 1]]] [[Fin 0]] (Fin (3/10))
       1 1 1 2 1
     = Some ([[Fin 0], [Fin (1/2)]], 1)"
  by (simp add: fit_eval numeral_2_eq_2)

lemma bcd_while_example_one:
  "bcd_while [Fin 1] [[[Fin 1]]] 1 (Fin 0) (real 1) 1 1 (vdiv ([[Fin 0]] ! 0) (Fin (of_int 1))) 0 0
      \<lparr>beta = [[Fin 0]], x_beta = [[Fin 0]],
        beta_ans = replicate 1 (replicate (1 * 1) (Fin 0)), warnings = 0\<rparr>
     = Some (False, \<lparr>beta = [[Fin 1]], x_beta = [[Fin 1]],
                     beta_ans = replicate 1 (replicate (1 * 1) (Fin 0)), warnings = 1\<rparr>)"
  by (simp add: fit_eval)

lemma bcd_while_example_two:
  "bcd_while [Fin 1] [[[Fin 1]]] 1 (Fin (3/10)) 2 1 1 [Fin (1/2)] 0 0
      \<lparr>beta = [[Fin 0]], x_beta = [[Fin 0]], beta_ans = [[Fin 0]], warnings = 0\<rparr>
     = Some (True, \<lparr>beta = [[Fin (1/2)]], x_beta = [[Fin (1/2)]],
                    beta_ans = [[Fin (1/2)]], warnings = 0\<rparr>)"
  by (simp add: fit_eval)

section \<open>Properties of the additive fit\<close>

lemma sweep_passes_iff:
  "sweep_passes y X n tw p tol k bx \<longleftrightarrow>
   (\<exists>b xb b' xb'. sweeps y X n tw p k bx = Some (b, xb)
      \<and> sweep y X n tw p (b, xb) = Some (b', xb')
      \<and> dlt (dabs (dsub (norm_arma (vectorise b')) (norm_arma (vectorise b)))) tol)"
  by (auto simp: sweep_passes_def change_below_tol_def split: option.splits)

lemma sweeps_Suc_right:
  "sweeps y X n tw p k bx = Some bx1 \<Longrightarrow>
   sweeps y X n tw p (Suc k) bx = sweep y X n tw p bx1"
proof (induction k arbitrary: bx)
  case 0
  then show ?case by (simp split: option.splits)
next
  case (Suc k)
  from Suc.prems obtain bx0 where
    a: "sweep y X n tw p bx = Some bx0" and b: "sweeps y X n tw p k bx0 = Some bx1"
    by (auto split: option.splits)
  from Suc.IH[OF b] a show ?case by simp
qed

lemma bcd_while_sign_flip:
  "bcd_while [Fin (- 1)] [[[Fin 1]]] 1 (Fin (1/10)) 5 1 1 [Fin 0] 0 0
      \<lparr>beta = [[Fin 1]], x_beta = [[Fin 1]], beta_ans = [[Fin 0]], warnings = 0\<rparr>
     = Some (True, \<lparr>beta = [[Fin (- 1)]], x_beta = [[Fin (- 1)]],
                    beta_ans = [[Fin (- 1)]], warnings = 0\<rparr>)"
  by (simp add: fit_eval)

lemma norm_of_difference_sign_flip:
  "\<not> dlt (norm_arma (vsub (vectorise [[Fin (- 1)]]) (vectorise [[Fin 1]]))) (Fin (1/10))"
  by (simp add: vsub_def vectorise_def dsub_def norm_arma_single dlt_def)

text \<open>
  Claim C6. The loop for one penalty, entered with \<^verbatim>\<open>counter = 0\<close> and a \<^verbatim>\<open>beta\<close> of
  \<open>J * p\<close> entries, ends with \<^verbatim>\<open>converged = true\<close> exactly when one of the sweeps it is
  allowed (sweep number \<open>k\<close> with \<open>k < max_iter\<close>), from \<^verbatim>\<open>beta\<close> = \<open>b\<close> to \<^verbatim>\<open>beta\<close> = \<open>b'\<close>,
  has \<open>\<bar>norm (vectorise b') - norm (vectorise b)\<bar> < tol\<close>. It then stops at the first
  such sweep, and column \<open>i\<close> of \<^verbatim>\<open>beta_ans\<close> is the vectorised \<^verbatim>\<open>beta\<close> after it. When
  it ends with \<^verbatim>\<open>converged = false\<close>, \<^verbatim>\<open>beta_ans\<close> is as before. The test is the
  difference of the two norms and not the norm of the difference: with \<open>y = (-1)\<close>, a
  \<^verbatim>\<open>beta\<close> that starts at \<open>(1)\<close> and tolerance \<open>1/10\<close>, the first sweep gives \<open>(-1)\<close>, the
  difference \<open>(-2)\<close> has norm \<open>2\<close>, and the loop ends converged with \<open>(-1)\<close> stored.
\<close>

theorem FitAdditive_convergence_test:
  assumes "length (vectorise (beta st)) = J * p"
    and "bcd_while y X n tol max_iter p J tw i 0 st = Some (conv, st')"
  shows "(conv \<longleftrightarrow>
            (\<exists>k b xb b' xb'. real k < max_iter
               \<and> sweeps y X n tw p k (beta st, x_beta st) = Some (b, xb)
               \<and> sweep y X n tw p (b, xb) = Some (b', xb')
               \<and> dlt (dabs (dsub (norm_arma (vectorise b')) (norm_arma (vectorise b)))) tol))
       \<and> (conv \<longrightarrow>
            (\<exists>k b xb b' xb'. real k < max_iter
               \<and> sweeps y X n tw p k (beta st, x_beta st) = Some (b, xb)
               \<and> sweep y X n tw p (b, xb) = Some (b', xb')
               \<and> dlt (dabs (dsub (norm_arma (vectorise b')) (norm_arma (vectorise b)))) tol
               \<and> (\<forall>k'<k. \<forall>c xc c' xc'.
                     sweeps y X n tw p k' (beta st, x_beta st) = Some (c, xc)
                     \<and> sweep y X n tw p (c, xc) = Some (c', xc')
                     \<longrightarrow> \<not> dlt (dabs (dsub (norm_arma (vectorise c'))
                                               (norm_arma (vectorise c)))) tol)
               \<and> beta st' = b' \<and> x_beta st' = xb'
               \<and> beta_ans st' = (beta_ans st)[i := vectorise b']))
       \<and> (\<not> conv \<longrightarrow> beta_ans st' = beta_ans st)
       \<and> bcd_while [Fin (- 1)] [[[Fin 1]]] 1 (Fin (1/10)) 5 1 1 [Fin 0] 0 0
            \<lparr>beta = [[Fin 1]], x_beta = [[Fin 1]], beta_ans = [[Fin 0]], warnings = 0\<rparr>
          = Some (True, \<lparr>beta = [[Fin (- 1)]], x_beta = [[Fin (- 1)]],
                         beta_ans = [[Fin (- 1)]], warnings = 0\<rparr>)
       \<and> \<not> dlt (norm_arma (vsub (vectorise [[Fin (- 1)]]) (vectorise [[Fin 1]]))) (Fin (1/10))"
proof -
  let ?bx = "(beta st, x_beta st)"
  let ?test = "\<lambda>b b'. dlt (dabs (dsub (norm_arma (vectorise b')) (norm_arma (vectorise b)))) tol"
  note ch = bcd_while_characterisation[OF assms(2) assms(1)]
  have noconv: "\<not> sweep_passes y X n tw p tol k ?bx" if "\<not> conv" "real k < max_iter" for k
    using ch that by simp
  have a: "conv \<longleftrightarrow> (\<exists>k b xb b' xb'. real k < max_iter
               \<and> sweeps y X n tw p k ?bx = Some (b, xb)
               \<and> sweep y X n tw p (b, xb) = Some (b', xb') \<and> ?test b b')"
  proof
    assume conv
    with ch obtain k where "real k < max_iter" "sweep_passes y X n tw p tol k ?bx"
      by auto
    then show "\<exists>k b xb b' xb'. real k < max_iter
               \<and> sweeps y X n tw p k ?bx = Some (b, xb)
               \<and> sweep y X n tw p (b, xb) = Some (b', xb') \<and> ?test b b'"
      unfolding sweep_passes_iff by blast
  next
    assume "\<exists>k b xb b' xb'. real k < max_iter
               \<and> sweeps y X n tw p k ?bx = Some (b, xb)
               \<and> sweep y X n tw p (b, xb) = Some (b', xb') \<and> ?test b b'"
    then obtain k where "real k < max_iter" "sweep_passes y X n tw p tol k ?bx"
      unfolding sweep_passes_iff by blast
    with noconv show conv by blast
  qed
  have b: "\<exists>k b xb b' xb'. real k < max_iter
               \<and> sweeps y X n tw p k ?bx = Some (b, xb)
               \<and> sweep y X n tw p (b, xb) = Some (b', xb') \<and> ?test b b'
               \<and> (\<forall>k'<k. \<forall>c xc c' xc'.
                     sweeps y X n tw p k' ?bx = Some (c, xc)
                     \<and> sweep y X n tw p (c, xc) = Some (c', xc') \<longrightarrow> \<not> ?test c c')
               \<and> beta st' = b' \<and> x_beta st' = xb'
               \<and> beta_ans st' = (beta_ans st)[i := vectorise b']" if conv
  proof -
    from ch that obtain k b' xb' where k:
      "real k < max_iter" "sweep_passes y X n tw p tol k ?bx"
      "\<forall>k'<k. \<not> sweep_passes y X n tw p tol k' ?bx"
      "sweeps y X n tw p (Suc k) ?bx = Some (b', xb')"
      "beta st' = b'" "x_beta st' = xb'" "beta_ans st' = (beta_ans st)[i := vectorise b']"
      by auto
    from k(2) obtain b xb b1 xb1 where p:
      "sweeps y X n tw p k ?bx = Some (b, xb)" "sweep y X n tw p (b, xb) = Some (b1, xb1)"
      "?test b b1"
      unfolding sweep_passes_iff by blast
    from sweeps_Suc_right[OF p(1)] k(4) p(2) have eq: "b1 = b'" "xb1 = xb'" by simp_all
    have first: "\<forall>k'<k. \<forall>c xc c' xc'.
                     sweeps y X n tw p k' ?bx = Some (c, xc)
                     \<and> sweep y X n tw p (c, xc) = Some (c', xc') \<longrightarrow> \<not> ?test c c'"
      using k(3) unfolding sweep_passes_iff by blast
    from k(1) p eq first k(5,6,7) show ?thesis by blast
  qed
  have c: "\<not> conv \<longrightarrow> beta_ans st' = beta_ans st" using ch by simp
  from a b c bcd_while_sign_flip norm_of_difference_sign_flip show ?thesis by blast
qed

theorem FitAdditive_convergence_test_witness:
  "length (vectorise (beta \<lparr>beta = [[Fin 0]], x_beta = [[Fin 0]], beta_ans = [[Fin 0]],
                             warnings = 0\<rparr>)) = 1 * 1
   \<and> bcd_while [Fin 1] [[[Fin 1]]] 1 (Fin (3/10)) 2 1 1 [Fin (1/2)] 0 0
        \<lparr>beta = [[Fin 0]], x_beta = [[Fin 0]], beta_ans = [[Fin 0]], warnings = 0\<rparr>
      = Some (True, \<lparr>beta = [[Fin (1/2)]], x_beta = [[Fin (1/2)]],
                     beta_ans = [[Fin (1/2)]], warnings = 0\<rparr>)
   \<and> (\<exists>k b xb b' xb'. real k < 2
          \<and> sweeps [Fin 1] [[[Fin 1]]] 1 [Fin (1/2)] 1 k
               (beta \<lparr>beta = [[Fin 0]], x_beta = [[Fin 0]], beta_ans = [[Fin 0]],
                       warnings = 0\<rparr>,
                x_beta \<lparr>beta = [[Fin 0]], x_beta = [[Fin 0]], beta_ans = [[Fin 0]],
                         warnings = 0\<rparr>) = Some (b, xb)
          \<and> sweep [Fin 1] [[[Fin 1]]] 1 [Fin (1/2)] 1 (b, xb) = Some (b', xb')
          \<and> dlt (dabs (dsub (norm_arma (vectorise b')) (norm_arma (vectorise b))))
                (Fin (3/10)))"
proof -
  have h: "length (vectorise (beta \<lparr>beta = [[Fin 0]], x_beta = [[Fin 0]], beta_ans = [[Fin 0]],
                             warnings = 0\<rparr>)) = 1 * 1"
    by (simp add: vectorise_def)
  note t = FitAdditive_convergence_test[OF h bcd_while_example_two]
  from t have "\<exists>k b xb b' xb'. real k < 2
          \<and> sweeps [Fin 1] [[[Fin 1]]] 1 [Fin (1/2)] 1 k
               (beta \<lparr>beta = [[Fin 0]], x_beta = [[Fin 0]], beta_ans = [[Fin 0]],
                       warnings = 0\<rparr>,
                x_beta \<lparr>beta = [[Fin 0]], x_beta = [[Fin 0]], beta_ans = [[Fin 0]],
                         warnings = 0\<rparr>) = Some (b, xb)
          \<and> sweep [Fin 1] [[[Fin 1]]] 1 [Fin (1/2)] 1 (b, xb) = Some (b', xb')
          \<and> dlt (dabs (dsub (norm_arma (vectorise b')) (norm_arma (vectorise b))))
                (Fin (3/10))"
    by blast
  with h bcd_while_example_two show ?thesis by (intro conjI)
qed

text \<open>
  Claim C2, as stated, fails: \<^verbatim>\<open>beta\<close> and \<^verbatim>\<open>x_beta\<close> are not reset between two
  penalties, so the loop for a penalty starts from the state that the loop for the
  penalty before it has left. With tolerance \<open>3/10\<close> and one iteration allowed, the
  weight \<open>1/2\<close> alone does not converge (its column stays zero), and after the weight
  \<open>1/4\<close> it converges to \<open>1/2\<close>.
\<close>

theorem FitAdditive_independence_counterexample:
  "FitAdditive [Fin 1] [[Fin (1/2)]] [[Fin 0]] [[[Fin 1]]] [[Fin 0]] (Fin (3/10)) 1 1 1 1 1
     = Some ([[Fin 0]], 1)
   \<and> FitAdditive [Fin 1] [[Fin (1/4)], [Fin (1/2)]] [[Fin 0]] [[[Fin 1]]] [[Fin 0]] (Fin (3/10))
       1 1 1 2 1
     = Some ([[Fin 0], [Fin (1/2)]], 1)"
  by (simp add: fit_eval numeral_2_eq_2)

text \<open>
  Claim C2, amended. Column \<open>i\<close> of the result depends on the columns \<open>0\<close>, ..., \<open>i\<close> of
  the weights and on the other arguments, not on the later columns and not on \<open>nlam\<close>:
  two calls that return, with the same arguments but for the weights, which agree on
  their first \<open>i + 1\<close> columns, and for \<open>nlam\<close>, return the same column \<open>i\<close>.
\<close>

theorem FitAdditive_column_prefix:
  assumes "take (Suc i) W = take (Suc i) W'" and "i < nlam" and "i < nlam'"
    and "FitAdditive y W xb0 X b0 tol p J n nlam max_iter = Some (ans, w)"
    and "FitAdditive y W' xb0 X b0 tol p J n nlam' max_iter = Some (ans', w')"
  shows "ans ! i = ans' ! i"
proof -
  from assms(4) obtain stN where
    N: "FitAdditive_outer y W xb0 X b0 tol p J n nlam max_iter nlam = Some stN"
    and a: "ans = beta_ans stN"
    by (auto simp: FitAdditive_def split: option.splits)
  from assms(5) obtain stN' where
    N': "FitAdditive_outer y W' xb0 X b0 tol p J n nlam' max_iter nlam' = Some stN'"
    and a': "ans' = beta_ans stN'"
    by (auto simp: FitAdditive_def split: option.splits)
  from assms(2) have le: "Suc i \<le> nlam" by simp
  from assms(3) have le': "Suc i \<le> nlam'" by simp
  from FitAdditive_outer_prefix[OF N le] obtain s where
    s: "FitAdditive_outer y W xb0 X b0 tol p J n nlam max_iter (Suc i) = Some s" ..
  from FitAdditive_outer_prefix[OF N' le'] obtain s' where
    s': "FitAdditive_outer y W' xb0 X b0 tol p J n nlam' max_iter (Suc i) = Some s'" ..
  from FitAdditive_outer_agree[OF le_refl assms(1) s s'] assms(2,3)
  have "beta_ans s ! i = beta_ans s' ! i" by simp
  moreover have "beta_ans stN ! i = beta_ans s ! i"
    using N s _ le by (rule FitAdditive_outer_column_stable) simp
  moreover have "beta_ans stN' ! i = beta_ans s' ! i"
    using N' s' _ le' by (rule FitAdditive_outer_column_stable) simp
  ultimately show ?thesis by (simp add: a a')
qed

theorem FitAdditive_column_prefix_witness:
  "take (Suc 0) [[Fin (1/4)], [Fin (1/2)]] = take (Suc 0) [[Fin (1/4)]]
   \<and> FitAdditive [Fin 1] [[Fin (1/4)], [Fin (1/2)]] [[Fin 0]] [[[Fin 1]]] [[Fin 0]] (Fin (3/10))
         1 1 1 2 1
       = Some ([[Fin 0], [Fin (1/2)]], 1)
   \<and> FitAdditive [Fin 1] [[Fin (1/4)]] [[Fin 0]] [[[Fin 1]]] [[Fin 0]] (Fin (3/10)) 1 1 1 1 1
       = Some ([[Fin 0]], 1)
   \<and> [[Fin 0], [Fin (1/2)]] ! 0 = [[Fin 0]] ! 0"
proof -
  have h1: "take (Suc 0) [[Fin (1/4)], [Fin (1/2)]] = take (Suc 0) [[Fin (1/4)]]" by simp
  have h2: "(0::nat) < 2" by simp
  have h3: "(0::nat) < 1" by simp
  have c: "[[Fin 0], [Fin (1/2)]] ! 0 = [[Fin 0]] ! 0"
    by (rule FitAdditive_column_prefix
          [OF h1 h2 h3 FitAdditive_example_two FitAdditive_example_quarter])
  show ?thesis by (intro conjI h1 FitAdditive_example_two FitAdditive_example_quarter c)
qed

text \<open>
  Claim C7, as stated, fails where it promises the warning: the warning is raised when
  \<^verbatim>\<open>counter == max_iter\<close>, and \<^verbatim>\<open>max_iter\<close> is a double. With \<open>max_iter = 5/2\<close> and
  \<open>tol = 0\<close> the loop runs three sweeps, none of which passes the test, and ends
  without a warning.
\<close>

theorem FitAdditive_no_warning_counterexample:
  "bcd_while [Fin 1] [[[Fin 1]]] 1 (Fin 0) (5/2) 1 1 [Fin 0] 0 0
      \<lparr>beta = [[Fin 0]], x_beta = [[Fin 0]], beta_ans = [[Fin 0]], warnings = 0\<rparr>
     = Some (False, \<lparr>beta = [[Fin 1]], x_beta = [[Fin 1]], beta_ans = [[Fin 0]], warnings = 0\<rparr>)
   \<and> FitAdditive [Fin 1] [[Fin 0]] [[Fin 0]] [[[Fin 1]]] [[Fin 0]] (Fin 0) 1 1 1 1 (5/2)
     = Some ([[Fin 0]], 0)"
  by (simp add: fit_eval)

text \<open>
  Claim C7, amended. Let \<open>max_iter\<close> be a whole number, at least \<open>1\<close>. When the loop for
  the penalty \<open>i\<close> ends with \<^verbatim>\<open>converged = false\<close>, it has raised one warning, column \<open>i\<close>
  of \<^verbatim>\<open>beta_ans\<close> is still zero, the outer loop goes on to the next penalty from the
  state reached, and column \<open>i\<close> of the result of the call is zero.
\<close>

theorem FitAdditive_no_convergence:
  assumes "max_iter = real m" and "1 \<le> m" and "i < nlam"
    and "FitAdditive_outer y W xb0 X b0 tol p J n nlam max_iter i = Some st"
    and "i < length W"
    and "bcd_while y X n tol max_iter p J (vdiv (W ! i) (Fin (of_int n))) i 0 st
           = Some (False, st')"
  shows "warnings st' = Suc (warnings st)
       \<and> beta_ans st' ! i = replicate (p * J) (Fin 0)
       \<and> FitAdditive_outer y W xb0 X b0 tol p J n nlam max_iter (Suc i) = Some st'
       \<and> (\<forall>ans w. FitAdditive y W xb0 X b0 tol p J n nlam max_iter = Some (ans, w)
             \<longrightarrow> ans ! i = replicate (p * J) (Fin 0))"
proof (intro conjI allI impI)
  from assms(2) have "0 < m" by simp
  with assms(6,1) show "warnings st' = Suc (warnings st)"
    by (rule bcd_while_warnings)
  from bcd_while_beta_ans[OF assms(6)] have "beta_ans st' = beta_ans st" by simp
  with FitAdditive_outer_inv[OF assms(4)] assms(3)
  show z: "beta_ans st' ! i = replicate (p * J) (Fin 0)" by simp
  from assms(4,5,6)
  show next_state: "FitAdditive_outer y W xb0 X b0 tol p J n nlam max_iter (Suc i) = Some st'"
    by simp
  fix ans w
  assume "FitAdditive y W xb0 X b0 tol p J n nlam max_iter = Some (ans, w)"
  then obtain stN where
    N: "FitAdditive_outer y W xb0 X b0 tol p J n nlam max_iter nlam = Some stN"
    and a: "ans = beta_ans stN"
    by (auto simp: FitAdditive_def split: option.splits)
  from assms(3) have "Suc i \<le> nlam" by simp
  with N next_state have "beta_ans stN ! i = beta_ans st' ! i"
    by (intro FitAdditive_outer_column_stable[where k = "Suc i"]) simp_all
  with z a show "ans ! i = replicate (p * J) (Fin 0)" by simp
qed

theorem FitAdditive_no_convergence_witness:
  "FitAdditive_outer [Fin 1] [[Fin 0]] [[Fin 0]] [[[Fin 1]]] [[Fin 0]] (Fin 0) 1 1 1 1 (real 1) 0
     = Some \<lparr>beta = [[Fin 0]], x_beta = [[Fin 0]],
             beta_ans = replicate 1 (replicate (1 * 1) (Fin 0)), warnings = 0\<rparr>
   \<and> warnings \<lparr>beta = [[Fin 1]], x_beta = [[Fin 1]],
                 beta_ans = replicate 1 (replicate (1 * 1) (Fin 0)), warnings = 1\<rparr>
       = Suc (warnings \<lparr>beta = [[Fin 0]], x_beta = [[Fin 0]],
                         beta_ans = replicate 1 (replicate (1 * 1) (Fin 0)), warnings = 0\<rparr>)
   \<and> FitAdditive_outer [Fin 1] [[Fin 0]] [[Fin 0]] [[[Fin 1]]] [[Fin 0]] (Fin 0) 1 1 1 1 (real 1)
         (Suc 0)
       = Some \<lparr>beta = [[Fin 1]], x_beta = [[Fin 1]],
               beta_ans = replicate 1 (replicate (1 * 1) (Fin 0)), warnings = 1\<rparr>"
proof -
  have h2: "1 \<le> (1::nat)" by simp
  have h3: "(0::nat) < 1" by simp
  have h4: "FitAdditive_outer [Fin 1] [[Fin 0]] [[Fin 0]] [[[Fin 1]]] [[Fin 0]] (Fin 0) 1 1 1 1
              (real 1) 0
     = Some \<lparr>beta = [[Fin 0]], x_beta = [[Fin 0]],
             beta_ans = replicate 1 (replicate (1 * 1) (Fin 0)), warnings = 0\<rparr>"
    by simp
  have h5: "0 < length [[Fin 0]]" by simp
  note t = FitAdditive_no_convergence[OF refl h2 h3 h4 h5 bcd_while_example_one]
  from t have a: "warnings \<lparr>beta = [[Fin 1]], x_beta = [[Fin 1]],
                 beta_ans = replicate 1 (replicate (1 * 1) (Fin 0)), warnings = 1\<rparr>
       = Suc (warnings \<lparr>beta = [[Fin 0]], x_beta = [[Fin 0]],
                         beta_ans = replicate 1 (replicate (1 * 1) (Fin 0)), warnings = 0\<rparr>)"
    by (elim conjE)
  from t have b: "FitAdditive_outer [Fin 1] [[Fin 0]] [[Fin 0]] [[[Fin 1]]] [[Fin 0]] (Fin 0)
         1 1 1 1 (real 1) (Suc 0)
       = Some \<lparr>beta = [[Fin 1]], x_beta = [[Fin 1]],
               beta_ans = replicate 1 (replicate (1 * 1) (Fin 0)), warnings = 1\<rparr>"
    by (elim conjE)
  show ?thesis by (intro conjI h4 a b)
qed

end
